theory Spec2Isabelle
  imports Main
begin

section \<open>The order queue controller of McDonaldApp.py\<close>

text \<open>
  The program is a controller object shared by one client thread (the menu loop of
  \<^verbatim>\<open>main\<close>) and one thread per bot. The model is an interleaving semantics: a state
  holds every object of the program, an event names the thread that moves, and
  \<open>step\<close> executes one statement (or one critical section) of that thread.

  Objects live in two heaps, \<open>order_heap\<close> and \<open>bot_heap\<close>; an object's
  address is its index, allocation appends. The lists \<open>orders\<close>,
  \<open>pending_orders\<close> and \<open>bots\<close> of the controller hold addresses, as the Python
  lists hold references.

  Time is one clock, \<open>now\<close>, in microseconds; \<^verbatim>\<open>datetime.now()\<close> and
  \<^verbatim>\<open>time.time()\<close> both read it. The clock never goes back, and two readings may
  coincide: it advances by \<open>Tick\<close> events only.
\<close>

subsection \<open>Order\<close>

text \<open>
  \<^verbatim>\<open>class Order\<close>, lines 8-18. \<open>otype\<close> is the attribute \<^verbatim>\<open>type\<close>. The status is
  the string the source assigns.
\<close>

record order =
  order_number :: nat
  otype :: string
  status :: string
  creation_time :: int
  start_time :: "int option"
  end_time :: "int option"

text \<open>\<^verbatim>\<open>str.upper()\<close> on ASCII text: the letters a-z move to A-Z.\<close>

definition upper_char :: "char \<Rightarrow> char" where
  "upper_char c =
     (if 97 \<le> (of_char c :: nat) \<and> (of_char c :: nat) \<le> 122
      then char_of ((of_char c :: nat) - 32) else c)"

definition upper :: "string \<Rightarrow> string" where
  "upper t = map upper_char t"

text \<open>\<^verbatim>\<open>Order.__init__(order_number, order_type)\<close> at clock value \<open>t\<close>.\<close>

definition Order :: "nat \<Rightarrow> string \<Rightarrow> int \<Rightarrow> order" where
  "Order n order_type t =
     \<lparr>order_number = n, otype = order_type, status = ''PENDING'',
      creation_time = t, start_time = None, end_time = None\<rparr>"

subsection \<open>Bot\<close>

text \<open>
  The program counter of a bot thread inside \<^verbatim>\<open>Bot.run\<close> (lines 28-50), one
  constructor per statement, named by its line. A constructor carries the thread's
  local variables that are live there: the reference \<^verbatim>\<open>order\<close> and the local
  \<^verbatim>\<open>start_time\<close> (line 36). \<open>Sleep44\<close> and \<open>Sleep50\<close> are the thread inside
  \<^verbatim>\<open>time.sleep(1)\<close>, with the clock value at which the sleep ends.
\<close>

datatype bot_pc =
    L29
  | L30
  | L32 nat
  | L33 nat
  | L34 nat
  | L35 nat
  | L36 nat
  | L37 nat int
  | L38 nat int
  | L39 nat
  | L40 nat
  | L41 nat
  | L42 nat
  | L44 nat int
  | Sleep44 nat int int
  | L45 nat
  | L46 nat
  | L47 nat
  | L48 nat
  | L50
  | Sleep50 int
  | Finished

record bot =
  bot_id :: nat
  current_order :: "nat option"
  stop_event :: bool
  pc :: bot_pc

definition Bot :: "nat \<Rightarrow> bot" where
  "Bot n = \<lparr>bot_id = n, current_order = None, stop_event = False, pc = L29\<rparr>"

subsection \<open>The client thread and the console\<close>

text \<open>
  The client is idle between two calls of the controller, or inside \<^verbatim>\<open>Bot.stop\<close>
  (lines 52-56) of the bot at the given address, called from \<^verbatim>\<open>remove_bot\<close> or
  from the loop of \<^verbatim>\<open>shutdown\<close> (with the bots that the loop has still to visit),
  or at the head of that loop.
\<close>

datatype caller = In_remove_bot | In_shutdown "nat list"

datatype main_pc =
    Idle
  | Stop53 nat caller
  | Stop54 nat caller
  | Stop56 nat caller
  | Shutdown_loop "nat list"

text \<open>
  A table row of \<^verbatim>\<open>display_orders\<close>. The cells keep the values the strings are
  formatted from: whole seconds, a time stamp, and for the progress bar the elapsed
  microseconds (the bar and the percentage are floating point formatting of it).
\<close>

datatype cell = Dash | Seconds int | Stamp int | Progress int

record row =
  r_number :: nat
  r_type :: string
  r_status :: string
  r_progress :: cell
  r_start :: cell
  r_end :: cell
  r_waiting :: cell

text \<open>One constructor per \<^verbatim>\<open>print\<close> statement, with the numbers it interpolates.\<close>

datatype msg =
    Bot_started nat nat
  | Bot_stopping nat nat
  | Bot_completed nat nat
  | Bot_being_stopped nat
  | Added nat
  | Added_bot nat
  | No_bots_to_remove
  | Removed_bot nat
  | No_orders_placed
  | No_orders_found string
  | Table "row list"
  | Shutting_down
  | All_shut_down

datatype py_error = TypeError

subsection \<open>The state\<close>

text \<open>
  The fields of \<^verbatim>\<open>OrderController\<close> (lines 59-65; \<open>order_counter\<close> is the attribute
  \<^verbatim>\<open>order_number\<close>, \<open>order_lock\<close> tells whether the lock is held), the two heaps,
  the client thread, the clock, the console and the value the last finished call of
  the controller returned (\<open>None\<close> is Python's \<^verbatim>\<open>None\<close>).
\<close>

record state =
  order_heap :: "order list"
  bot_heap :: "bot list"
  order_lock :: bool
  orders :: "nat list"
  pending_orders :: "nat list"
  order_counter :: nat
  bots :: "nat list"
  bot_id_counter :: nat
  main :: main_pc
  now :: int
  console :: "msg list"
  returned :: "nat option"

definition initial_state :: state where
  "initial_state =
     \<lparr>order_heap = [], bot_heap = [], order_lock = False, orders = [],
      pending_orders = [], order_counter = 0, bots = [], bot_id_counter = 1,
      main = Idle, now = 0, console = [], returned = None\<rparr>"

abbreviation the_order :: "state \<Rightarrow> nat \<Rightarrow> order" where
  "the_order s r \<equiv> order_heap s ! r"

abbreviation the_bot :: "state \<Rightarrow> nat \<Rightarrow> bot" where
  "the_bot s a \<equiv> bot_heap s ! a"

definition upd_order :: "nat \<Rightarrow> (order \<Rightarrow> order) \<Rightarrow> state \<Rightarrow> state" where
  "upd_order r f s = s\<lparr>order_heap := (order_heap s)[r := f (order_heap s ! r)]\<rparr>"

definition upd_bot :: "nat \<Rightarrow> (bot \<Rightarrow> bot) \<Rightarrow> state \<Rightarrow> state" where
  "upd_bot a f s = s\<lparr>bot_heap := (bot_heap s)[a := f (bot_heap s ! a)]\<rparr>"

definition print :: "msg \<Rightarrow> state \<Rightarrow> state" where
  "print m s = s\<lparr>console := console s @ [m]\<rparr>"

definition goto :: "nat \<Rightarrow> bot_pc \<Rightarrow> state \<Rightarrow> state" where
  "goto a l s = upd_bot a (\<lambda>b. b\<lparr>pc := l\<rparr>) s"

subsection \<open>OrderController.add_order\<close>

text \<open>
  Lines 75-79: the index after the leading run of VIP orders of the queue.
\<close>

definition is_vip :: "state \<Rightarrow> nat \<Rightarrow> bool" where
  "is_vip s r = (upper (otype (the_order s r)) = ''VIP'')"

fun vip_index :: "state \<Rightarrow> nat list \<Rightarrow> nat" where
  "vip_index s [] = 0"
| "vip_index s (r # rs) = (if \<not> is_vip s r then 0 else Suc (vip_index s rs))"

text \<open>
  \<^verbatim>\<open>deque.insert(i, x)\<close> with \<open>0 \<le> i \<le> len\<close>; the deque has no maximum length.
\<close>

definition insert_at :: "nat \<Rightarrow> 'a \<Rightarrow> 'a list \<Rightarrow> 'a list" where
  "insert_at i x xs = take i xs @ x # drop i xs"

text \<open>Lines 69-85, the body under the lock.\<close>

definition add_order :: "string \<Rightarrow> state \<Rightarrow> state" where
  "add_order order_type s =
     (let n = order_counter s + 1;
          r = length (order_heap s);
          s1 = s\<lparr>order_counter := n,
                 order_heap := order_heap s @ [Order n order_type (now s)],
                 orders := orders s @ [r]\<rparr>;
          s2 = (if upper order_type = ''VIP''
                then s1\<lparr>pending_orders :=
                        insert_at (vip_index s1 (pending_orders s1)) r (pending_orders s1)\<rparr>
                else s1\<lparr>pending_orders := pending_orders s1 @ [r]\<rparr>)
      in (print (Added r) s2)\<lparr>returned := None\<rparr>)"

subsection \<open>OrderController.get_next_order\<close>

text \<open>Lines 89-93, the body under the lock: the order returned and the new state.\<close>

definition get_next_order :: "state \<Rightarrow> nat option \<times> state" where
  "get_next_order s =
     (case pending_orders s of
        [] \<Rightarrow> (None, s)
      | r # rs \<Rightarrow> (Some r, s\<lparr>pending_orders := rs\<rparr>))"

subsection \<open>OrderController.add_bot\<close>

text \<open>Lines 97-102. \<^verbatim>\<open>bot.start()\<close> puts the new thread at line 29.\<close>

definition add_bot :: "state \<Rightarrow> state" where
  "add_bot s =
     (let a = length (bot_heap s);
          b = Bot (bot_id_counter s);
          s1 = s\<lparr>bot_heap := bot_heap s @ [b],
                 bot_id_counter := bot_id_counter s + 1,
                 bots := bots s @ [a]\<rparr>
      in (print (Added_bot (bot_id b)) s1)\<lparr>returned := Some (bot_id b)\<rparr>)"

subsection \<open>OrderController.display_orders\<close>

text \<open>
  \<^verbatim>\<open>int(d.total_seconds())\<close> of a difference of \<open>d\<close> microseconds: \<^verbatim>\<open>int\<close> rounds
  towards zero.
\<close>

definition whole_seconds :: "int \<Rightarrow> int" where
  "whole_seconds d = (if 0 \<le> d then d div 1000000 else - ((- d) div 1000000))"

text \<open>
  Lines 144-188 for one order: nothing when the filter rejects it, else its row.
  Line 151 subtracts from \<^verbatim>\<open>order.start_time\<close>, which raises \<^verbatim>\<open>TypeError\<close> when that
  is \<^verbatim>\<open>None\<close>.
\<close>

definition display_row :: "string \<Rightarrow> int \<Rightarrow> order \<Rightarrow> py_error + row option" where
  "display_row filter_status t ord =
     (if filter_status = ''ALL'' \<or> status ord = filter_status then
        (if status ord = ''PROCESSING'' \<and> start_time ord = None then Inl TypeError
         else
           let times =
             (if status ord = ''PENDING'' then
                (Seconds (whole_seconds (t - creation_time ord)), Dash, Dash)
              else if status ord = ''PROCESSING'' then
                (Seconds (whole_seconds (the (start_time ord) - creation_time ord)),
                 Stamp (the (start_time ord)), Dash)
              else if status ord = ''COMPLETE'' then
                (Seconds (case start_time ord of
                            None \<Rightarrow> 0
                          | Some st \<Rightarrow> whole_seconds (st - creation_time ord)),
                 (case start_time ord of None \<Rightarrow> Dash | Some st \<Rightarrow> Stamp st),
                 (case end_time ord of None \<Rightarrow> Dash | Some e \<Rightarrow> Stamp e))
              else (Dash, Dash, Dash));
             progress =
               (if status ord = ''PROCESSING'' \<and> start_time ord \<noteq> None
                then Progress (t - the (start_time ord)) else Dash)
           in Inr (Some \<lparr>r_number = order_number ord, r_type = upper (otype ord),
                         r_status = status ord, r_progress = progress,
                         r_start = fst (snd times), r_end = snd (snd times),
                         r_waiting = fst times\<rparr>))
      else Inr None)"

text \<open>The loop of line 143 over \<^verbatim>\<open>self.orders\<close>, appending to \<^verbatim>\<open>filtered_orders\<close>.\<close>

fun display_loop ::
  "string \<Rightarrow> state \<Rightarrow> nat list \<Rightarrow> row list \<Rightarrow> py_error + row list" where
  "display_loop f s [] filtered_orders = Inr filtered_orders"
| "display_loop f s (r # rs) filtered_orders =
     (case display_row f (now s) (the_order s r) of
        Inl e \<Rightarrow> Inl e
      | Inr None \<Rightarrow> display_loop f s rs filtered_orders
      | Inr (Some x) \<Rightarrow> display_loop f s rs (filtered_orders @ [x]))"

text \<open>Lines 138-195, the body under the lock.\<close>

definition display_orders :: "string \<Rightarrow> state \<Rightarrow> py_error + state" where
  "display_orders filter_status s =
     (if orders s = [] then Inr ((print No_orders_placed s)\<lparr>returned := None\<rparr>)
      else
        case display_loop filter_status s (orders s) [] of
          Inl e \<Rightarrow> Inl e
        | Inr filtered_orders \<Rightarrow>
            if filtered_orders = []
            then Inr ((print (No_orders_found filter_status) s)\<lparr>returned := None\<rparr>)
            else Inr ((print (Table filtered_orders) s)\<lparr>returned := None\<rparr>))"

subsection \<open>Bot.run\<close>

text \<open>
  One statement of the thread of the bot at address \<open>a\<close>; \<open>None\<close> when the thread
  cannot move: it has ended, it sleeps, or it waits for the lock at line 30.
  Line 30 is the whole of \<^verbatim>\<open>get_next_order\<close>, a critical section, with the test of
  line 31. The processing time of line 37 is 10 seconds, a sleep lasts 1 second.
\<close>

definition bot_step :: "nat \<Rightarrow> state \<Rightarrow> state option" where
  "bot_step a s =
     (if \<not> a < length (bot_heap s) then None
      else
        case pc (the_bot s a) of
          L29 \<Rightarrow>
            Some (if stop_event (the_bot s a) then goto a Finished s else goto a L30 s)
        | L30 \<Rightarrow>
            if order_lock s then None
            else (case get_next_order s of
                    (Some r, s') \<Rightarrow> Some (goto a (L32 r) s')
                  | (None, s') \<Rightarrow> Some (goto a L50 s'))
        | L32 r \<Rightarrow>
            Some (goto a (L33 r) (upd_bot a (\<lambda>b. b\<lparr>current_order := Some r\<rparr>) s))
        | L33 r \<Rightarrow>
            Some (goto a (L34 r) (upd_order r (\<lambda>x. x\<lparr>status := ''PROCESSING''\<rparr>) s))
        | L34 r \<Rightarrow>
            Some (goto a (L35 r) (upd_order r (\<lambda>x. x\<lparr>start_time := Some (now s)\<rparr>) s))
        | L35 r \<Rightarrow>
            Some (goto a (L36 r) (print (Bot_started (bot_id (the_bot s a)) r) s))
        | L36 r \<Rightarrow> Some (goto a (L37 r (now s)) s)
        | L37 r st \<Rightarrow>
            Some (if now s - st < 10000000 then goto a (L38 r st) s
                  else goto a (L45 r) s)
        | L38 r st \<Rightarrow>
            Some (if stop_event (the_bot s a) then goto a (L39 r) s
                  else goto a (L44 r st) s)
        | L39 r \<Rightarrow>
            Some (goto a (L40 r) (print (Bot_stopping (bot_id (the_bot s a)) r) s))
        | L40 r \<Rightarrow>
            Some (goto a (L41 r) (upd_order r (\<lambda>x. x\<lparr>status := ''PENDING''\<rparr>) s))
        | L41 r \<Rightarrow>
            Some (goto a (L42 r) (upd_order r (\<lambda>x. x\<lparr>start_time := None\<rparr>) s))
        | L42 r \<Rightarrow>
            Some (goto a Finished (upd_bot a (\<lambda>b. b\<lparr>current_order := None\<rparr>) s))
        | L44 r st \<Rightarrow> Some (goto a (Sleep44 r st (now s + 1000000)) s)
        | Sleep44 r st w \<Rightarrow> if w \<le> now s then Some (goto a (L37 r st) s) else None
        | L45 r \<Rightarrow>
            Some (goto a (L46 r) (upd_order r (\<lambda>x. x\<lparr>status := ''COMPLETE''\<rparr>) s))
        | L46 r \<Rightarrow>
            Some (goto a (L47 r) (upd_order r (\<lambda>x. x\<lparr>end_time := Some (now s)\<rparr>) s))
        | L47 r \<Rightarrow>
            Some (goto a (L48 r) (print (Bot_completed (bot_id (the_bot s a)) r) s))
        | L48 r \<Rightarrow>
            Some (goto a L29 (upd_bot a (\<lambda>b. b\<lparr>current_order := None\<rparr>) s))
        | L50 \<Rightarrow> Some (goto a (Sleep50 (now s + 1000000)) s)
        | Sleep50 w \<Rightarrow> if w \<le> now s then Some (goto a L29 s) else None
        | Finished \<Rightarrow> None)"

subsection \<open>OrderController.remove_bot, OrderController.shutdown and Bot.stop\<close>

text \<open>
  The call of \<^verbatim>\<open>remove_bot\<close> up to the call of \<^verbatim>\<open>bot.stop()\<close> (lines 105-110). With
  no bot it prints and returns. Otherwise it holds the lock, has popped the last bot,
  and stands at line 53.
\<close>

definition remove_bot :: "state \<Rightarrow> state" where
  "remove_bot s =
     (if bots s = [] then (print No_bots_to_remove s)\<lparr>returned := None\<rparr>
      else s\<lparr>order_lock := True, bots := butlast (bots s),
             main := Stop53 (last (bots s)) In_remove_bot\<rparr>)"

text \<open>The call of \<^verbatim>\<open>shutdown\<close> up to its loop (line 198); it takes no lock.\<close>

definition shutdown :: "state \<Rightarrow> state" where
  "shutdown s = (print Shutting_down s)\<lparr>main := Shutdown_loop (bots s)\<rparr>"

text \<open>
  One statement of the client thread inside a call: the three statements of
  \<^verbatim>\<open>Bot.stop\<close>, of which \<^verbatim>\<open>join\<close> (line 56) waits until the bot's thread has ended,
  then the rest of the caller: line 111 and the release of the lock, or the next round
  of the loop of line 199, which ends with line 201.
\<close>

definition main_step :: "state \<Rightarrow> state option" where
  "main_step s =
     (case main s of
        Idle \<Rightarrow> None
      | Stop53 a c \<Rightarrow>
          Some ((upd_bot a (\<lambda>b. b\<lparr>stop_event := True\<rparr>) s)\<lparr>main := Stop54 a c\<rparr>)
      | Stop54 a c \<Rightarrow>
          Some ((if current_order (the_bot s a) \<noteq> None
                 then print (Bot_being_stopped (bot_id (the_bot s a))) s else s)
                \<lparr>main := Stop56 a c\<rparr>)
      | Stop56 a c \<Rightarrow>
          if pc (the_bot s a) \<noteq> Finished then None
          else (case c of
                  In_remove_bot \<Rightarrow>
                    Some ((print (Removed_bot (bot_id (the_bot s a))) s)
                          \<lparr>order_lock := False, main := Idle, returned := None\<rparr>)
                | In_shutdown rest \<Rightarrow> Some (s\<lparr>main := Shutdown_loop rest\<rparr>))
      | Shutdown_loop [] \<Rightarrow> Some ((print All_shut_down s)\<lparr>main := Idle, returned := None\<rparr>)
      | Shutdown_loop (a # rest) \<Rightarrow> Some (s\<lparr>main := Stop53 a (In_shutdown rest)\<rparr>))"

subsection \<open>The interleaving\<close>

text \<open>
  The client calls a method of the controller when it is idle; a method whose body is
  under the lock needs the lock free. An exception of \<^verbatim>\<open>display_orders\<close> leaves the
  menu loop of \<^verbatim>\<open>main\<close> through its \<^verbatim>\<open>finally\<close> clause, which calls \<^verbatim>\<open>shutdown\<close>
  (line 250).
\<close>

datatype event =
    Call_add_order string
  | Call_add_bot
  | Call_remove_bot
  | Call_display_orders string
  | Call_shutdown
  | Main_step
  | Bot_step nat
  | Tick int

definition step :: "event \<Rightarrow> state \<Rightarrow> state option" where
  "step e s =
     (case e of
        Call_add_order t \<Rightarrow>
          if main s = Idle \<and> \<not> order_lock s then Some (add_order t s) else None
      | Call_add_bot \<Rightarrow>
          if main s = Idle \<and> \<not> order_lock s then Some (add_bot s) else None
      | Call_remove_bot \<Rightarrow>
          if main s = Idle \<and> \<not> order_lock s then Some (remove_bot s) else None
      | Call_display_orders f \<Rightarrow>
          if main s = Idle \<and> \<not> order_lock s
          then (case display_orders f s of
                  Inr s' \<Rightarrow> Some s'
                | Inl err \<Rightarrow> Some (shutdown s))
          else None
      | Call_shutdown \<Rightarrow> if main s = Idle then Some (shutdown s) else None
      | Main_step \<Rightarrow> main_step s
      | Bot_step a \<Rightarrow> bot_step a s
      | Tick d \<Rightarrow> if 0 < d then Some (s\<lparr>now := now s + d\<rparr>) else None)"

fun run :: "event list \<Rightarrow> state \<Rightarrow> state option" where
  "run [] s = Some s"
| "run (e # es) s = (case step e s of None \<Rightarrow> None | Some s' \<Rightarrow> run es s')"

inductive reachable :: "state \<Rightarrow> bool" where
  reachable_initial: "reachable initial_state"
| reachable_step: "reachable s \<Longrightarrow> step e s = Some s' \<Longrightarrow> reachable s'"

subsection \<open>States used as examples\<close>

definition two_orders :: state where
  "two_orders = add_order ''VIP'' (add_order ''normal'' initial_state)"

definition two_orders_shown :: state where
  "two_orders_shown =
     two_orders\<lparr>console := console two_orders @
       [Table [\<lparr>r_number = 1, r_type = ''NORMAL'', r_status = ''PENDING'',
                 r_progress = Dash, r_start = Dash, r_end = Dash, r_waiting = Seconds 0\<rparr>,
               \<lparr>r_number = 2, r_type = ''VIP'', r_status = ''PENDING'',
                 r_progress = Dash, r_start = Dash, r_end = Dash, r_waiting = Seconds 0\<rparr>]],
       returned := None\<rparr>"

subsection \<open>Invariants\<close>

text \<open>The order that the local variable \<^verbatim>\<open>order\<close> of a bot thread refers to.\<close>

fun holds :: "bot_pc \<Rightarrow> nat option" where
  "holds L29 = None"
| "holds L30 = None"
| "holds (L32 r) = Some r"
| "holds (L33 r) = Some r"
| "holds (L34 r) = Some r"
| "holds (L35 r) = Some r"
| "holds (L36 r) = Some r"
| "holds (L37 r st) = Some r"
| "holds (L38 r st) = Some r"
| "holds (L39 r) = Some r"
| "holds (L40 r) = Some r"
| "holds (L41 r) = Some r"
| "holds (L42 r) = Some r"
| "holds (L44 r st) = Some r"
| "holds (Sleep44 r st w) = Some r"
| "holds (L45 r) = Some r"
| "holds (L46 r) = Some r"
| "holds (L47 r) = Some r"
| "holds (L48 r) = Some r"
| "holds L50 = None"
| "holds (Sleep50 w) = None"
| "holds Finished = None"

text \<open>
  Addresses and numbers: the counters count the objects, \<^verbatim>\<open>self.orders\<close> lists every
  order in the order of creation, and the object at address \<open>r\<close> carries the number
  \<open>r + 1\<close>.
\<close>

definition inv_heap :: "state \<Rightarrow> bool" where
  "inv_heap s \<longleftrightarrow>
     order_counter s = length (order_heap s) \<and>
     orders s = [0..<length (order_heap s)] \<and>
     (\<forall>r<length (order_heap s). order_number (the_order s r) = Suc r) \<and>
     bot_id_counter s = Suc (length (bot_heap s)) \<and>
     (\<forall>a<length (bot_heap s). bot_id (the_bot s a) = Suc a)"

text \<open>An order as \<^verbatim>\<open>Order.__init__\<close> leaves it.\<close>

definition fresh :: "order \<Rightarrow> bool" where
  "fresh x \<longleftrightarrow> status x = ''PENDING'' \<and> start_time x = None \<and> end_time x = None"

text \<open>
  The pending queue holds orders that no thread has touched, each once; an order that a
  bot thread refers to is not in the queue, and no two threads refer to the same order.
\<close>

definition inv_queue :: "state \<Rightarrow> bool" where
  "inv_queue s \<longleftrightarrow>
     (\<forall>r\<in>set (pending_orders s). r < length (order_heap s) \<and> fresh (the_order s r)) \<and>
     distinct (pending_orders s) \<and>
     (\<forall>a<length (bot_heap s). \<forall>r. holds (pc (the_bot s a)) = Some r \<longrightarrow>
        r < length (order_heap s) \<and> r \<notin> set (pending_orders s)) \<and>
     (\<forall>a<length (bot_heap s). \<forall>a'<length (bot_heap s). \<forall>r.
        holds (pc (the_bot s a)) = Some r \<longrightarrow> holds (pc (the_bot s a')) = Some r \<longrightarrow> a = a')"

text \<open>
  The pending queue is a run of VIP orders followed by a run of other orders, each run
  in the order of the addresses, which is the order of creation.
\<close>

definition inv_order :: "state \<Rightarrow> bool" where
  "inv_order s \<longleftrightarrow>
     (\<exists>vs ns. pending_orders s = vs @ ns \<and>
        (\<forall>r\<in>set vs. is_vip s r) \<and> (\<forall>r\<in>set ns. \<not> is_vip s r) \<and>
        sorted_wrt (<) vs \<and> sorted_wrt (<) ns)"

text \<open>The order numbers along the pending queue.\<close>

definition pending_numbers :: "state \<Rightarrow> nat list" where
  "pending_numbers s = map (\<lambda>r. order_number (the_order s r)) (pending_orders s)"

text \<open>
  The scenario of three submissions, and a run in which a bot has taken the VIP order
  out of the queue and is about to set its status (line 33).
\<close>

definition three_orders_trace :: "event list" where
  "three_orders_trace =
     [Call_add_order ''normal'', Call_add_order ''VIP'', Call_add_order ''normal'']"

definition three_orders :: state where
  "three_orders = the (run three_orders_trace initial_state)"

definition taken_trace :: "event list" where
  "taken_trace =
     [Call_add_bot, Call_add_order ''normal'', Call_add_order ''VIP'',
      Bot_step 0, Bot_step 0, Bot_step 0]"

definition taken :: state where
  "taken = the (run taken_trace initial_state)"

definition taken_next :: state where
  "taken_next = the (step (Bot_step 0) taken)"

text \<open>No order has been touched by a bot.\<close>

definition all_fresh :: "state \<Rightarrow> bool" where
  "all_fresh s \<longleftrightarrow> (\<forall>r<length (order_heap s). fresh (the_order s r))"

text \<open>The calls \<^verbatim>\<open>add_order(t)\<close> for the types of a list, one after the other.\<close>

definition submit :: "string list \<Rightarrow> state \<Rightarrow> state" where
  "submit ts s = fold add_order ts s"

text \<open>
  The attribute \<^verbatim>\<open>current_order\<close> of a bot as a function of where its thread
  stands, and the places a thread only reaches after it has seen its stop event.
\<close>

fun cur_of :: "bot_pc \<Rightarrow> nat option" where
  "cur_of (L32 r) = None"
| "cur_of L29 = None"
| "cur_of L30 = None"
| "cur_of L50 = None"
| "cur_of (Sleep50 w) = None"
| "cur_of Finished = None"
| "cur_of l = holds l"

fun stopping :: "bot_pc \<Rightarrow> bool" where
  "stopping (L39 r) = True"
| "stopping (L40 r) = True"
| "stopping (L41 r) = True"
| "stopping (L42 r) = True"
| "stopping Finished = True"
| "stopping l = False"

definition inv_threads :: "state \<Rightarrow> bool" where
  "inv_threads s \<longleftrightarrow>
     (\<forall>a<length (bot_heap s).
        current_order (the_bot s a) = cur_of (pc (the_bot s a)) \<and>
        (stopping (pc (the_bot s a)) \<longrightarrow> stop_event (the_bot s a)))"

text \<open>
  The client thread: the bots of a list have ended; what holds inside \<^verbatim>\<open>Bot.stop\<close>
  for each caller; what holds at each place of the client. The pool lists valid
  addresses in increasing order, the order in which the bots were added.
\<close>

definition joined :: "state \<Rightarrow> nat list \<Rightarrow> bool" where
  "joined s as \<longleftrightarrow> (\<forall>a\<in>set as. pc (the_bot s a) = Finished)"

fun caller_ok :: "state \<Rightarrow> nat \<Rightarrow> caller \<Rightarrow> bool" where
  "caller_ok s a In_remove_bot \<longleftrightarrow> order_lock s \<and> (\<forall>b\<in>set (bots s). b < a)"
| "caller_ok s a (In_shutdown rest) \<longleftrightarrow>
     \<not> order_lock s \<and> (\<exists>done. bots s = done @ a # rest \<and> joined s done)"

fun main_ok :: "state \<Rightarrow> main_pc \<Rightarrow> bool" where
  "main_ok s Idle \<longleftrightarrow> \<not> order_lock s"
| "main_ok s (Stop53 a c) \<longleftrightarrow> a < length (bot_heap s) \<and> caller_ok s a c"
| "main_ok s (Stop54 a c) \<longleftrightarrow>
     a < length (bot_heap s) \<and> caller_ok s a c \<and> stop_event (the_bot s a)"
| "main_ok s (Stop56 a c) \<longleftrightarrow>
     a < length (bot_heap s) \<and> caller_ok s a c \<and> stop_event (the_bot s a)"
| "main_ok s (Shutdown_loop rest) \<longleftrightarrow>
     \<not> order_lock s \<and> (\<exists>done. bots s = done @ rest \<and> joined s done)"

definition inv_main :: "state \<Rightarrow> bool" where
  "inv_main s \<longleftrightarrow>
     (\<forall>a\<in>set (bots s). a < length (bot_heap s)) \<and> sorted_wrt (<) (bots s) \<and>
     main_ok s (main s)"

text \<open>
  A call of \<^verbatim>\<open>shutdown\<close> on a pool of \<open>n\<close> bots that the client runs through without
  waiting: the call, four statements for each bot (the loop head and the three of
  \<^verbatim>\<open>Bot.stop\<close>) and the end of the loop.
\<close>

definition shutdown_events :: "nat \<Rightarrow> event list" where
  "shutdown_events n = Call_shutdown # replicate (4 * n + 1) Main_step"

text \<open>
  A run with two bots, one of them in the middle of an order, up to the point where a
  call of \<^verbatim>\<open>shutdown\<close> has joined both and is about to return.
\<close>

definition shutdown_trace :: "event list" where
  "shutdown_trace =
     [Call_add_bot, Call_add_order ''VIP'', Call_add_bot,
      Bot_step 0, Bot_step 0, Bot_step 0, Bot_step 0, Bot_step 1,
      Call_shutdown, Main_step, Main_step, Main_step,
      Bot_step 0, Bot_step 0, Bot_step 0, Bot_step 0, Bot_step 0, Bot_step 0,
      Bot_step 0, Bot_step 0, Bot_step 0,
      Main_step, Main_step, Main_step, Main_step,
      Bot_step 1, Bot_step 1, Tick 1000000, Bot_step 1, Bot_step 1, Main_step]"

definition shutdown_returning :: state where
  "shutdown_returning = the (run shutdown_trace initial_state)"

definition shutdown_returned :: state where
  "shutdown_returned = the (step Main_step shutdown_returning)"

text \<open>
  A run in which a bot has passed the test of line 29 when the client calls
  \<^verbatim>\<open>remove_bot\<close>: the client takes the lock and waits in \<^verbatim>\<open>join\<close>, the bot waits for the
  lock at line 30.
\<close>

definition deadlock_trace :: "event list" where
  "deadlock_trace = [Call_add_bot, Bot_step 0, Call_remove_bot, Main_step, Main_step]"

definition deadlocked :: state where
  "deadlocked = the (run deadlock_trace initial_state)"

definition deadlocked_later :: state where
  "deadlocked_later = the (run [Tick 60000000, Tick 1] deadlocked)"

text \<open>The client holds the lock and joins the bot at \<open>a\<close>, which waits for the lock.\<close>

definition stuck :: "nat \<Rightarrow> state \<Rightarrow> bool" where
  "stuck a s \<longleftrightarrow>
     order_lock s \<and> main s = Stop56 a In_remove_bot \<and> a < length (bot_heap s) \<and>
     pc (the_bot s a) = L30"

text \<open>
  A run in which the only bot is half a second into order #1, then the removal of the
  bot: the bot sees its stop event when its sleep ends, gives the order up and ends.
\<close>

definition mid_task_trace :: "event list" where
  "mid_task_trace =
     [Call_add_bot, Call_add_order ''normal'',
      Bot_step 0, Bot_step 0, Bot_step 0, Bot_step 0, Bot_step 0,
      Bot_step 0, Bot_step 0, Bot_step 0, Bot_step 0, Bot_step 0,
      Tick 500000]"

definition removal_trace :: "event list" where
  "removal_trace =
     [Call_remove_bot, Main_step, Main_step, Tick 500000,
      Bot_step 0, Bot_step 0, Bot_step 0, Bot_step 0, Bot_step 0, Bot_step 0, Bot_step 0,
      Main_step]"

definition mid_task :: state where
  "mid_task = the (run mid_task_trace initial_state)"

definition after_removal :: state where
  "after_removal = the (run removal_trace mid_task)"

definition after_removal_new_bot :: state where
  "after_removal_new_bot = the (run [Call_add_bot, Bot_step 1, Bot_step 1] after_removal)"







text \<open>
  A run in which the bot has set the status of order #1 (line 33) and not yet its start
  time (line 34).
\<close>

definition unstamped_trace :: "event list" where
  "unstamped_trace =
     [Call_add_bot, Call_add_order ''normal'', Bot_step 0, Bot_step 0, Bot_step 0, Bot_step 0]"

definition unstamped :: state where
  "unstamped = the (run unstamped_trace initial_state)"

text \<open>
  A run from inside a call of the controller up to the first state in which the client
  is idle again, that is, up to the return of the call; \<open>None\<close> when the events do
  not reach it.
\<close>

fun until_idle :: "event list \<Rightarrow> state \<Rightarrow> state option" where
  "until_idle [] s = None"
| "until_idle (e # es) s =
     (case step e s of
        None \<Rightarrow> None
      | Some s' \<Rightarrow> if main s' = Idle then Some s' else until_idle es s')"

text \<open>The client is inside \<^verbatim>\<open>remove_bot\<close>, stopping the bot at \<open>a\<close>.\<close>

definition in_remove :: "nat \<Rightarrow> state \<Rightarrow> bool" where
  "in_remove a s \<longleftrightarrow>
     main s = Stop53 a In_remove_bot \<or> main s = Stop54 a In_remove_bot \<or>
     main s = Stop56 a In_remove_bot"

text \<open>
  A pool of two idle bots, the call of \<^verbatim>\<open>remove_bot\<close> on it, and its return; and a run
  in which the only bot is removed.
\<close>

definition two_bots :: state where
  "two_bots = the (run [Call_add_bot, Call_add_bot] initial_state)"

definition two_bots_removing :: state where
  "two_bots_removing = the (step Call_remove_bot two_bots)"

definition two_bots_removed :: state where
  "two_bots_removed =
     the (until_idle [Main_step, Bot_step 0, Main_step, Tick 7, Bot_step 1, Main_step]
            two_bots_removing)"

definition remove_idle_trace :: "event list" where
  "remove_idle_trace =
     [Call_add_bot, Call_remove_bot, Main_step, Main_step, Bot_step 0, Main_step]"

definition removed_idle :: state where
  "removed_idle = the (run remove_idle_trace initial_state)"













section \<open>Properties\<close>

subsection \<open>get_next_order\<close>

lemma two_orders_pending: "pending_orders two_orders = [1, 0]"
  by code_simp

text \<open>
  The body of \<^verbatim>\<open>get_next_order\<close>, which runs under the lock: it pops the head of the
  pending queue and returns it, or returns \<^verbatim>\<open>None\<close> and changes nothing.
\<close>

lemma get_next_order_body:
  "(pending_orders s = r # rs \<longrightarrow>
      get_next_order s = (Some r, s\<lparr>pending_orders := rs\<rparr>)) \<and>
   (pending_orders s = [] \<longrightarrow> get_next_order s = (None, s))"
  by (simp add: get_next_order_def)

subsection \<open>display_orders\<close>

lemma display_two_orders: "display_orders ''ALL'' two_orders = Inr two_orders_shown"
  by code_simp

text \<open>
  Claim C8. \<^verbatim>\<open>display_orders\<close> is a pure read, for every filter string (so for ALL,
  PENDING, PROCESSING and COMPLETE): when it returns, the order objects, the list of
  orders, the pending queue, the pool of bots, the bot objects and both counters are
  what they were, as are the lock, the client thread and the clock. Only the console
  has grown. (When it raises, it yields no state at all.)
\<close>

theorem display_orders_pure_read:
  "display_orders f s = Inr s' \<Longrightarrow>
     order_heap s' = order_heap s \<and> orders s' = orders s \<and>
     pending_orders s' = pending_orders s \<and>
     bots s' = bots s \<and> bot_heap s' = bot_heap s \<and>
     order_counter s' = order_counter s \<and> bot_id_counter s' = bot_id_counter s \<and>
     order_lock s' = order_lock s \<and> main s' = main s \<and> now s' = now s"
  by (auto simp: display_orders_def print_def split: if_splits sum.splits)

theorem display_orders_pure_read_witness:
  "display_orders ''ALL'' two_orders = Inr two_orders_shown \<and>
   order_heap two_orders_shown = order_heap two_orders \<and>
   orders two_orders_shown = orders two_orders \<and>
   pending_orders two_orders_shown = pending_orders two_orders \<and>
   bots two_orders_shown = bots two_orders \<and>
   bot_heap two_orders_shown = bot_heap two_orders \<and>
   order_counter two_orders_shown = order_counter two_orders \<and>
   bot_id_counter two_orders_shown = bot_id_counter two_orders"
  using display_orders_pure_read [OF display_two_orders] display_two_orders
  by simp

subsection \<open>The effect of the elementary updates\<close>

lemma upd_bot_simps [simp]:
  "order_heap (upd_bot a f s) = order_heap s"
  "order_lock (upd_bot a f s) = order_lock s"
  "orders (upd_bot a f s) = orders s"
  "pending_orders (upd_bot a f s) = pending_orders s"
  "order_counter (upd_bot a f s) = order_counter s"
  "bots (upd_bot a f s) = bots s"
  "bot_id_counter (upd_bot a f s) = bot_id_counter s"
  "main (upd_bot a f s) = main s"
  "now (upd_bot a f s) = now s"
  "console (upd_bot a f s) = console s"
  "returned (upd_bot a f s) = returned s"
  "length (bot_heap (upd_bot a f s)) = length (bot_heap s)"
  by (simp_all add: upd_bot_def)

lemma upd_bot_nth [simp]:
  "bot_heap (upd_bot a f s) ! a' =
     (if a' = a \<and> a < length (bot_heap s) then f (bot_heap s ! a) else bot_heap s ! a')"
  by (cases "a < length (bot_heap s)") (auto simp: upd_bot_def nth_list_update list_update_beyond not_less)

lemma goto_simps [simp]:
  "order_heap (goto a l s) = order_heap s"
  "order_lock (goto a l s) = order_lock s"
  "orders (goto a l s) = orders s"
  "pending_orders (goto a l s) = pending_orders s"
  "order_counter (goto a l s) = order_counter s"
  "bots (goto a l s) = bots s"
  "bot_id_counter (goto a l s) = bot_id_counter s"
  "main (goto a l s) = main s"
  "now (goto a l s) = now s"
  "console (goto a l s) = console s"
  "returned (goto a l s) = returned s"
  "length (bot_heap (goto a l s)) = length (bot_heap s)"
  by (simp_all add: goto_def)

lemma goto_nth [simp]:
  "bot_heap (goto a l s) ! a' =
     (if a' = a \<and> a < length (bot_heap s) then (bot_heap s ! a)\<lparr>pc := l\<rparr> else bot_heap s ! a')"
  by (simp add: goto_def)

lemma upd_order_simps [simp]:
  "bot_heap (upd_order r f s) = bot_heap s"
  "order_lock (upd_order r f s) = order_lock s"
  "orders (upd_order r f s) = orders s"
  "pending_orders (upd_order r f s) = pending_orders s"
  "order_counter (upd_order r f s) = order_counter s"
  "bots (upd_order r f s) = bots s"
  "bot_id_counter (upd_order r f s) = bot_id_counter s"
  "main (upd_order r f s) = main s"
  "now (upd_order r f s) = now s"
  "console (upd_order r f s) = console s"
  "returned (upd_order r f s) = returned s"
  "length (order_heap (upd_order r f s)) = length (order_heap s)"
  by (simp_all add: upd_order_def)

lemma upd_order_nth [simp]:
  "order_heap (upd_order r f s) ! r' =
     (if r' = r \<and> r < length (order_heap s) then f (order_heap s ! r) else order_heap s ! r')"
  by (cases "r < length (order_heap s)") (auto simp: upd_order_def nth_list_update list_update_beyond not_less)

lemma print_simps [simp]:
  "order_heap (print m s) = order_heap s"
  "bot_heap (print m s) = bot_heap s"
  "order_lock (print m s) = order_lock s"
  "orders (print m s) = orders s"
  "pending_orders (print m s) = pending_orders s"
  "order_counter (print m s) = order_counter s"
  "bots (print m s) = bots s"
  "bot_id_counter (print m s) = bot_id_counter s"
  "main (print m s) = main s"
  "now (print m s) = now s"
  "console (print m s) = console s @ [m]"
  "returned (print m s) = returned s"
  by (simp_all add: print_def)

subsection \<open>Frames of the operations\<close>

lemma inv_heap_initial: "inv_heap initial_state"
  by (simp add: inv_heap_def initial_state_def)

lemma inv_heap_bot_step:
  "inv_heap s \<Longrightarrow> bot_step a s = Some s' \<Longrightarrow> inv_heap s'"
  by (cases "pc (the_bot s a)")
    (auto simp: bot_step_def inv_heap_def get_next_order_def split: if_splits list.splits)

lemma inv_heap_main_step:
  "inv_heap s \<Longrightarrow> main_step s = Some s' \<Longrightarrow> inv_heap s'"
  by (cases "main s")
    (auto simp: main_step_def inv_heap_def split: if_splits caller.splits list.splits)

lemma bot_step_bots:
  "bot_step a s = Some s' \<Longrightarrow>
     a < length (bot_heap s) \<and> length (bot_heap s') = length (bot_heap s) \<and>
     (\<forall>a'. a' \<noteq> a \<longrightarrow> the_bot s' a' = the_bot s a') \<and>
     bot_id (the_bot s' a) = bot_id (the_bot s a) \<and>
     stop_event (the_bot s' a) = stop_event (the_bot s a)"
  by (cases "pc (the_bot s a)")
    (auto simp: bot_step_def get_next_order_def split: if_splits list.splits)

lemma bot_step_ctl:
  "bot_step a s = Some s' \<Longrightarrow>
     orders s' = orders s \<and> order_counter s' = order_counter s \<and> bots s' = bots s \<and>
     bot_id_counter s' = bot_id_counter s \<and> main s' = main s \<and> now s' = now s \<and>
     order_lock s' = order_lock s \<and> returned s' = returned s"
  by (cases "pc (the_bot s a)")
    (auto simp: bot_step_def get_next_order_def split: if_splits list.splits)

lemma bot_step_orders:
  "bot_step a s = Some s' \<Longrightarrow>
     length (order_heap s') = length (order_heap s) \<and>
     (\<forall>r. holds (pc (the_bot s a)) \<noteq> Some r \<longrightarrow> the_order s' r = the_order s r) \<and>
     (\<forall>r. order_number (the_order s' r) = order_number (the_order s r) \<and>
          otype (the_order s' r) = otype (the_order s r) \<and>
          creation_time (the_order s' r) = creation_time (the_order s r))"
  by (cases "pc (the_bot s a)")
    (auto simp: bot_step_def get_next_order_def split: if_splits list.splits)

lemma bot_step_queue:
  "bot_step a s = Some s' \<Longrightarrow>
     (pending_orders s' = pending_orders s \<and>
      (holds (pc (the_bot s' a)) = holds (pc (the_bot s a)) \<or>
       holds (pc (the_bot s' a)) = None)) \<or>
     (\<exists>r. pending_orders s = r # pending_orders s' \<and>
          holds (pc (the_bot s' a)) = Some r \<and> order_heap s' = order_heap s)"
  by (cases "pc (the_bot s a)")
    (auto simp: bot_step_def get_next_order_def split: if_splits list.splits)


lemma add_order_simps:
  "order_heap (add_order t s) = order_heap s @ [Order (Suc (order_counter s)) t (now s)]"
  "orders (add_order t s) = orders s @ [length (order_heap s)]"
  "order_counter (add_order t s) = Suc (order_counter s)"
  "bot_heap (add_order t s) = bot_heap s"
  "bots (add_order t s) = bots s"
  "bot_id_counter (add_order t s) = bot_id_counter s"
  "main (add_order t s) = main s"
  "now (add_order t s) = now s"
  "order_lock (add_order t s) = order_lock s"
  "returned (add_order t s) = None"
  "console (add_order t s) = console s @ [Added (length (order_heap s))]"
  by (simp_all add: add_order_def Let_def)

lemma add_bot_simps:
  "bot_heap (add_bot s) = bot_heap s @ [Bot (bot_id_counter s)]"
  "bots (add_bot s) = bots s @ [length (bot_heap s)]"
  "bot_id_counter (add_bot s) = Suc (bot_id_counter s)"
  "order_heap (add_bot s) = order_heap s"
  "orders (add_bot s) = orders s"
  "pending_orders (add_bot s) = pending_orders s"
  "order_counter (add_bot s) = order_counter s"
  "main (add_bot s) = main s"
  "now (add_bot s) = now s"
  "order_lock (add_bot s) = order_lock s"
  "returned (add_bot s) = Some (bot_id_counter s)"
  "console (add_bot s) = console s @ [Added_bot (bot_id_counter s)]"
  by (simp_all add: add_bot_def Let_def Bot_def)

lemma remove_bot_simps:
  "bot_heap (remove_bot s) = bot_heap s"
  "order_heap (remove_bot s) = order_heap s"
  "orders (remove_bot s) = orders s"
  "pending_orders (remove_bot s) = pending_orders s"
  "order_counter (remove_bot s) = order_counter s"
  "bot_id_counter (remove_bot s) = bot_id_counter s"
  "now (remove_bot s) = now s"
  by (simp_all add: remove_bot_def)

lemma shutdown_simps:
  "bot_heap (shutdown s) = bot_heap s"
  "order_heap (shutdown s) = order_heap s"
  "orders (shutdown s) = orders s"
  "pending_orders (shutdown s) = pending_orders s"
  "order_counter (shutdown s) = order_counter s"
  "bot_id_counter (shutdown s) = bot_id_counter s"
  "bots (shutdown s) = bots s"
  "order_lock (shutdown s) = order_lock s"
  "now (shutdown s) = now s"
  "main (shutdown s) = Shutdown_loop (bots s)"
  by (simp_all add: shutdown_def)

lemma display_orders_frame:
  "display_orders f s = Inr s' \<Longrightarrow> \<exists>m. s' = (print m s)\<lparr>returned := None\<rparr>"
  by (auto simp: display_orders_def split: if_splits sum.splits)

lemma inv_heap_add_order: "inv_heap s \<Longrightarrow> inv_heap (add_order t s)"
  by (auto simp: inv_heap_def add_order_simps Order_def nth_append)

lemma inv_heap_add_bot: "inv_heap s \<Longrightarrow> inv_heap (add_bot s)"
  by (auto simp: inv_heap_def add_bot_simps Bot_def nth_append)

lemma inv_heap_remove_bot: "inv_heap s \<Longrightarrow> inv_heap (remove_bot s)"
  by (simp add: inv_heap_def remove_bot_simps)

lemma inv_heap_shutdown: "inv_heap s \<Longrightarrow> inv_heap (shutdown s)"
  by (simp add: inv_heap_def shutdown_simps)

lemma inv_heap_display:
  "inv_heap s \<Longrightarrow> display_orders f s = Inr s' \<Longrightarrow> inv_heap s'"
  by (auto simp: inv_heap_def dest!: display_orders_frame)

lemma inv_heap_tick: "inv_heap s \<Longrightarrow> inv_heap (s\<lparr>now := t\<rparr>)"
  by (simp add: inv_heap_def)

lemma inv_heap_step:
  assumes "inv_heap s" and "step e s = Some s'"
  shows "inv_heap s'"
proof (cases e)
  case (Call_add_order t)
  with assms show ?thesis
    by (auto simp: step_def inv_heap_add_order split: if_splits)
next
  case Call_add_bot
  with assms show ?thesis
    by (auto simp: step_def inv_heap_add_bot split: if_splits)
next
  case Call_remove_bot
  with assms show ?thesis
    by (auto simp: step_def inv_heap_remove_bot split: if_splits)
next
  case (Call_display_orders f)
  with assms show ?thesis
    by (auto simp: step_def inv_heap_display inv_heap_shutdown split: if_splits sum.splits)
next
  case Call_shutdown
  with assms show ?thesis
    by (auto simp: step_def inv_heap_shutdown split: if_splits)
next
  case Main_step
  with assms show ?thesis
    by (auto simp: step_def inv_heap_main_step)
next
  case (Bot_step a)
  with assms show ?thesis
    by (auto simp: step_def inv_heap_bot_step)
next
  case (Tick d)
  with assms show ?thesis
    by (auto simp: step_def inv_heap_tick split: if_splits)
qed

subsection \<open>The pending queue and the orders held by bots\<close>

lemma step_cases [consumes 1, case_names add_order add_bot remove_bot display shutdown main_step bot_step tick]:
  assumes "step e s = Some s'"
  obtains
    t where "main s = Idle" "\<not> order_lock s" "s' = add_order t s"
  | "main s = Idle" "\<not> order_lock s" "s' = add_bot s"
  | "main s = Idle" "\<not> order_lock s" "s' = remove_bot s"
  | f where "main s = Idle" "\<not> order_lock s" "display_orders f s = Inr s'"
  | "main s = Idle" "s' = shutdown s"
  | "main_step s = Some s'"
  | a where "bot_step a s = Some s'"
  | d where "0 < d" "s' = s\<lparr>now := now s + d\<rparr>"
proof (cases e)
  case (Call_add_order t)
  with assms that(1) [of t] show ?thesis
    by (simp add: step_def split: if_splits)
next
  case Call_add_bot
  with assms that(2) show ?thesis
    by (simp add: step_def split: if_splits)
next
  case Call_remove_bot
  with assms that(3) show ?thesis
    by (simp add: step_def split: if_splits)
next
  case (Call_display_orders f)
  show ?thesis
  proof (cases "display_orders f s")
    case (Inl err)
    with assms Call_display_orders that(5) show ?thesis
      by (simp add: step_def split: if_splits)
  next
    case (Inr s1)
    with assms Call_display_orders that(4) [of f] show ?thesis
      by (simp add: step_def split: if_splits)
  qed
next
  case Call_shutdown
  with assms that(5) show ?thesis
    by (simp add: step_def split: if_splits)
next
  case Main_step
  with assms that(6) show ?thesis
    by (simp add: step_def)
next
  case (Bot_step a)
  with assms that(7) [of a] show ?thesis
    by (simp add: step_def)
next
  case (Tick d)
  with assms that(8) [of d] show ?thesis
    by (simp add: step_def split: if_splits)
qed

lemma main_step_frame:
  "main_step s = Some s' \<Longrightarrow>
     order_heap s' = order_heap s \<and> pending_orders s' = pending_orders s \<and>
     orders s' = orders s \<and> order_counter s' = order_counter s \<and>
     bot_id_counter s' = bot_id_counter s \<and> bots s' = bots s \<and> now s' = now s \<and>
     length (bot_heap s') = length (bot_heap s) \<and>
     (\<forall>a. pc (the_bot s' a) = pc (the_bot s a) \<and>
          bot_id (the_bot s' a) = bot_id (the_bot s a) \<and>
          current_order (the_bot s' a) = current_order (the_bot s a) \<and>
          (stop_event (the_bot s a) \<longrightarrow> stop_event (the_bot s' a)))"
  by (cases "main s")
    (auto simp: main_step_def split: if_splits caller.splits list.splits)

lemma inv_queue_initial: "inv_queue initial_state"
  by (simp add: inv_queue_def initial_state_def)

lemma inv_queue_bot_step:
  assumes inv: "inv_queue s" and st: "bot_step a s = Some s'"
  shows "inv_queue s'"
proof -
  note B = bot_step_bots [OF st] and O = bot_step_orders [OF st]
  from inv have
    P: "\<And>r. r \<in> set (pending_orders s) \<Longrightarrow> r < length (order_heap s) \<and> fresh (the_order s r)"
    and D: "distinct (pending_orders s)"
    and H: "\<And>b r. b < length (bot_heap s) \<Longrightarrow> holds (pc (the_bot s b)) = Some r \<Longrightarrow>
              r < length (order_heap s) \<and> r \<notin> set (pending_orders s)"
    and X: "\<And>b b' r. b < length (bot_heap s) \<Longrightarrow> b' < length (bot_heap s) \<Longrightarrow>
              holds (pc (the_bot s b)) = Some r \<Longrightarrow> holds (pc (the_bot s b')) = Some r \<Longrightarrow> b = b'"
    by (auto simp: inv_queue_def)
  from bot_step_queue [OF st] consider
    (same) "pending_orders s' = pending_orders s"
      "holds (pc (the_bot s' a)) = holds (pc (the_bot s a)) \<or> holds (pc (the_bot s' a)) = None"
  | (pop) r0 where "pending_orders s = r0 # pending_orders s'"
      "holds (pc (the_bot s' a)) = Some r0" "order_heap s' = order_heap s"
    by auto
  then show ?thesis
  proof cases
    case same
    note h = same(2) and same = same(1)
    have hb: "holds (pc (the_bot s' b)) = Some r \<Longrightarrow> holds (pc (the_bot s b)) = Some r" for b r
      using h B by (cases "b = a") auto
    have 1: "r < length (order_heap s') \<and> fresh (the_order s' r)" if "r \<in> set (pending_orders s')" for r
    proof -
      from that same have m: "r \<in> set (pending_orders s)" by simp
      with H [of a r] B have "holds (pc (the_bot s a)) \<noteq> Some r" by auto
      with O have "the_order s' r = the_order s r" by simp
      with P [OF m] O show ?thesis by simp
    qed
    have 3: "r < length (order_heap s') \<and> r \<notin> set (pending_orders s')"
      if "b < length (bot_heap s')" "holds (pc (the_bot s' b)) = Some r" for b r
      using H [of b r] hb [of b r] that B O same by simp
    have 4: "b = b'" if "b < length (bot_heap s')" "b' < length (bot_heap s')"
      "holds (pc (the_bot s' b)) = Some r" "holds (pc (the_bot s' b')) = Some r" for b b' r
      using X [of b b' r] hb [of b r] hb [of b' r] that B by simp
    have c1: "\<forall>r\<in>set (pending_orders s'). r < length (order_heap s') \<and> fresh (the_order s' r)"
      using 1 by blast
    have c3: "\<forall>b<length (bot_heap s'). \<forall>r. holds (pc (the_bot s' b)) = Some r \<longrightarrow>
        r < length (order_heap s') \<and> r \<notin> set (pending_orders s')"
      using 3 by blast
    have c4: "\<forall>b<length (bot_heap s'). \<forall>b'<length (bot_heap s'). \<forall>r.
        holds (pc (the_bot s' b)) = Some r \<longrightarrow> holds (pc (the_bot s' b')) = Some r \<longrightarrow> b = b'"
      using 4 by blast
    show ?thesis
      unfolding inv_queue_def using c1 c3 c4 D same by simp
  next
    case pop
    note h = pop(2) and heap = pop(3) and pop = pop(1)
    have 1: "r < length (order_heap s') \<and> fresh (the_order s' r)" if "r \<in> set (pending_orders s')" for r
      using P [of r] that pop heap by (metis list.set_intros(2))
    have D': "distinct (pending_orders s')" and r0: "r0 \<notin> set (pending_orders s')"
      using D pop by (metis distinct.simps(2))+
    have r0p: "r0 \<in> set (pending_orders s)" using pop by (metis list.set_intros(1))
    have sub: "r \<in> set (pending_orders s') \<Longrightarrow> r \<in> set (pending_orders s)" for r
      using pop by (metis list.set_intros(2))
    have 3: "r < length (order_heap s') \<and> r \<notin> set (pending_orders s')"
      if "b < length (bot_heap s')" "holds (pc (the_bot s' b)) = Some r" for b r
    proof (cases "b = a")
      case True
      with that h have "r = r0" by simp
      with P [OF r0p] r0 heap show ?thesis by simp
    next
      case False
      with that B have "b < length (bot_heap s)" "holds (pc (the_bot s b)) = Some r" by auto
      from H [OF this] sub heap show ?thesis by auto
    qed
    have other: "holds (pc (the_bot s' b)) \<noteq> Some r0" if "b < length (bot_heap s')" "b \<noteq> a" for b
    proof
      assume "holds (pc (the_bot s' b)) = Some r0"
      with that B have "b < length (bot_heap s)" "holds (pc (the_bot s b)) = Some r0" by auto
      from H [OF this] r0p show False by simp
    qed
    have 4: "b = b'" if "b < length (bot_heap s')" "b' < length (bot_heap s')"
      "holds (pc (the_bot s' b)) = Some r" "holds (pc (the_bot s' b')) = Some r" for b b' r
    proof (cases "b = a \<or> b' = a")
      case True
      with that h other show ?thesis by (metis option.inject)
    next
      case False
      with that B X [of b b' r] show ?thesis by auto
    qed
    have c1: "\<forall>r\<in>set (pending_orders s'). r < length (order_heap s') \<and> fresh (the_order s' r)"
      using 1 by blast
    have c3: "\<forall>b<length (bot_heap s'). \<forall>r. holds (pc (the_bot s' b)) = Some r \<longrightarrow>
        r < length (order_heap s') \<and> r \<notin> set (pending_orders s')"
      using 3 by blast
    have c4: "\<forall>b<length (bot_heap s'). \<forall>b'<length (bot_heap s'). \<forall>r.
        holds (pc (the_bot s' b)) = Some r \<longrightarrow> holds (pc (the_bot s' b')) = Some r \<longrightarrow> b = b'"
      using 4 by blast
    show ?thesis
      unfolding inv_queue_def using c1 c3 c4 D' by simp
  qed
qed


lemma set_insert_at [simp]: "set (insert_at k x xs) = insert x (set xs)"
proof -
  have "set (take k xs) \<union> set (drop k xs) = set xs"
    by (metis append_take_drop_id set_append)
  then show ?thesis by (auto simp: insert_at_def)
qed

lemma distinct_insert_at [simp]:
  "distinct (insert_at k x xs) \<longleftrightarrow> x \<notin> set xs \<and> distinct xs"
proof -
  have "set (take k xs) \<union> set (drop k xs) = set xs"
    by (metis append_take_drop_id set_append)
  moreover have "distinct (take k xs @ drop k xs) = distinct xs" by simp
  ultimately show ?thesis
    unfolding insert_at_def by (auto simp del: append_take_drop_id)
qed

lemma add_order_pending_set:
  "set (pending_orders (add_order t s)) = insert (length (order_heap s)) (set (pending_orders s))"
  "distinct (pending_orders (add_order t s)) \<longleftrightarrow>
     length (order_heap s) \<notin> set (pending_orders s) \<and> distinct (pending_orders s)"
  by (auto simp: add_order_def Let_def)

lemma inv_queue_add_order:
  assumes "inv_queue s"
  shows "inv_queue (add_order t s)"
proof -
  let ?s = "add_order t s"
  from assms have
    P: "\<forall>r\<in>set (pending_orders s). r < length (order_heap s) \<and> fresh (the_order s r)"
    and D: "distinct (pending_orders s)"
    and H: "\<forall>b<length (bot_heap s). \<forall>r. holds (pc (the_bot s b)) = Some r \<longrightarrow>
              r < length (order_heap s) \<and> r \<notin> set (pending_orders s)"
    and X: "\<forall>b<length (bot_heap s). \<forall>b'<length (bot_heap s). \<forall>r.
              holds (pc (the_bot s b)) = Some r \<longrightarrow> holds (pc (the_bot s b')) = Some r \<longrightarrow> b = b'"
    by (simp_all add: inv_queue_def)
  have new: "length (order_heap s) \<notin> set (pending_orders s)"
    using P by auto
  have len: "length (order_heap ?s) = Suc (length (order_heap s))"
    by (simp add: add_order_simps)
  have old: "the_order ?s r = the_order s r" if "r < length (order_heap s)" for r
    using that by (simp add: add_order_simps nth_append)
  have fresh_new: "fresh (the_order ?s (length (order_heap s)))"
    by (simp add: add_order_simps fresh_def Order_def)
  have c1: "r < length (order_heap ?s) \<and> fresh (the_order ?s r)"
    if "r \<in> set (pending_orders ?s)" for r
  proof (cases "r = length (order_heap s)")
    case True
    with fresh_new len show ?thesis by simp
  next
    case False
    with that have "r \<in> set (pending_orders s)" by (simp add: add_order_pending_set)
    with P have "r < length (order_heap s)" "fresh (the_order s r)" by auto
    with old [of r] len show ?thesis by simp
  qed
  have c2: "distinct (pending_orders ?s)"
    using D new by (simp add: add_order_pending_set)
  have c3: "r < length (order_heap ?s) \<and> r \<notin> set (pending_orders ?s)"
    if "b < length (bot_heap ?s)" "holds (pc (the_bot ?s b)) = Some r" for b r
  proof -
    from that have "b < length (bot_heap s)" "holds (pc (the_bot s b)) = Some r"
      by (simp_all add: add_order_simps)
    with H have "r < length (order_heap s)" "r \<notin> set (pending_orders s)" by auto
    with len show ?thesis by (simp add: add_order_pending_set)
  qed
  have c4: "\<forall>b<length (bot_heap ?s). \<forall>b'<length (bot_heap ?s). \<forall>r.
      holds (pc (the_bot ?s b)) = Some r \<longrightarrow> holds (pc (the_bot ?s b')) = Some r \<longrightarrow> b = b'"
    using X by (simp add: add_order_simps)
  from c1 have c1': "\<forall>r\<in>set (pending_orders ?s).
      r < length (order_heap ?s) \<and> fresh (the_order ?s r)"
    by blast
  from c3 have c3': "\<forall>b<length (bot_heap ?s). \<forall>r. holds (pc (the_bot ?s b)) = Some r \<longrightarrow>
      r < length (order_heap ?s) \<and> r \<notin> set (pending_orders ?s)"
    by blast
  show ?thesis
    unfolding inv_queue_def using c1' c2 c3' c4 by simp
qed

lemma add_bot_nth:
  "a < Suc (length (bot_heap s)) \<Longrightarrow>
     the_bot (add_bot s) a = (if a < length (bot_heap s) then the_bot s a else Bot (bot_id_counter s))"
  by (simp add: add_bot_simps nth_append)

lemma inv_queue_add_bot:
  assumes "inv_queue s"
  shows "inv_queue (add_bot s)"
proof -
  let ?s = "add_bot s"
  from assms have
    P: "\<forall>r\<in>set (pending_orders s). r < length (order_heap s) \<and> fresh (the_order s r)"
    and D: "distinct (pending_orders s)"
    and H: "\<forall>b<length (bot_heap s). \<forall>r. holds (pc (the_bot s b)) = Some r \<longrightarrow>
              r < length (order_heap s) \<and> r \<notin> set (pending_orders s)"
    and X: "\<forall>b<length (bot_heap s). \<forall>b'<length (bot_heap s). \<forall>r.
              holds (pc (the_bot s b)) = Some r \<longrightarrow> holds (pc (the_bot s b')) = Some r \<longrightarrow> b = b'"
    by (simp_all add: inv_queue_def)
  have hd: "b < length (bot_heap s) \<and> holds (pc (the_bot s b)) = Some r"
    if "b < length (bot_heap ?s)" "holds (pc (the_bot ?s b)) = Some r" for b r
    using that add_bot_nth [of b s]
    by (cases "b < length (bot_heap s)") (simp_all add: add_bot_simps Bot_def)
  have c3: "r < length (order_heap ?s) \<and> r \<notin> set (pending_orders ?s)"
    if "b < length (bot_heap ?s)" "holds (pc (the_bot ?s b)) = Some r" for b r
  proof -
    from hd [OF that] have "b < length (bot_heap s)" "holds (pc (the_bot s b)) = Some r"
      by simp_all
    with H have "r < length (order_heap s) \<and> r \<notin> set (pending_orders s)" by simp
    then show ?thesis by (simp add: add_bot_simps)
  qed
  have c4: "b = b'"
    if "b < length (bot_heap ?s)" "holds (pc (the_bot ?s b)) = Some r"
      "b' < length (bot_heap ?s)" "holds (pc (the_bot ?s b')) = Some r" for b b' r
  proof -
    from hd [OF that(1,2)] have 1: "b < length (bot_heap s)" "holds (pc (the_bot s b)) = Some r"
      by simp_all
    from hd [OF that(3,4)] have 2: "b' < length (bot_heap s)" "holds (pc (the_bot s b')) = Some r"
      by simp_all
    from X 1 2 show ?thesis by simp
  qed
  have p: "pending_orders ?s = pending_orders s" "order_heap ?s = order_heap s"
    by (simp_all add: add_bot_simps)
  show ?thesis
    unfolding inv_queue_def p
  proof (intro conjI allI impI)
    show "\<forall>r\<in>set (pending_orders s). r < length (order_heap s) \<and> fresh (the_order s r)"
      by (rule P)
    show "distinct (pending_orders s)" by (rule D)
    show "r < length (order_heap s)"
      if "b < length (bot_heap ?s)" "holds (pc (the_bot ?s b)) = Some r" for b r
      using c3 [OF that] p by simp
    show "r \<notin> set (pending_orders s)"
      if "b < length (bot_heap ?s)" "holds (pc (the_bot ?s b)) = Some r" for b r
      using c3 [OF that] p by simp
    show "b = b'"
      if "b < length (bot_heap ?s)" "b' < length (bot_heap ?s)"
        "holds (pc (the_bot ?s b)) = Some r" "holds (pc (the_bot ?s b')) = Some r" for b b' r
      using c4 [of b r b'] that by simp
  qed
qed

lemma inv_queue_remove_bot: "inv_queue s \<Longrightarrow> inv_queue (remove_bot s)"
  by (simp add: inv_queue_def remove_bot_simps)

lemma inv_queue_shutdown: "inv_queue s \<Longrightarrow> inv_queue (shutdown s)"
  by (simp add: inv_queue_def shutdown_simps)

lemma inv_queue_display:
  "inv_queue s \<Longrightarrow> display_orders f s = Inr s' \<Longrightarrow> inv_queue s'"
  by (auto simp: inv_queue_def dest!: display_orders_frame)

lemma inv_queue_tick: "inv_queue s \<Longrightarrow> inv_queue (s\<lparr>now := t\<rparr>)"
  by (simp add: inv_queue_def)

lemma inv_queue_main_step:
  assumes "inv_queue s" and "main_step s = Some s'"
  shows "inv_queue s'"
proof -
  from main_step_frame [OF assms(2)] have eqs:
    "order_heap s' = order_heap s" "pending_orders s' = pending_orders s"
    "length (bot_heap s') = length (bot_heap s)"
    "\<And>a. pc (the_bot s' a) = pc (the_bot s a)"
    by simp_all
  from assms(1) show ?thesis
    unfolding inv_queue_def eqs .
qed

lemma inv_queue_step:
  assumes "inv_queue s" and "step e s = Some s'"
  shows "inv_queue s'"
  using assms(2)
proof (cases rule: step_cases)
  case (add_order t)
  show ?thesis unfolding add_order(3) using assms(1) by (rule inv_queue_add_order)
next
  case add_bot
  show ?thesis unfolding add_bot(3) using assms(1) by (rule inv_queue_add_bot)
next
  case remove_bot
  show ?thesis unfolding remove_bot(3) using assms(1) by (rule inv_queue_remove_bot)
next
  case (display f)
  from assms(1) display(3) show ?thesis by (rule inv_queue_display)
next
  case shutdown
  show ?thesis unfolding shutdown(2) using assms(1) by (rule inv_queue_shutdown)
next
  case main_step
  from assms(1) main_step show ?thesis by (rule inv_queue_main_step)
next
  case (bot_step a)
  from assms(1) bot_step show ?thesis by (rule inv_queue_bot_step)
next
  case (tick d)
  show ?thesis unfolding tick(2) using assms(1) by (rule inv_queue_tick)
qed

subsection \<open>The order of the pending queue\<close>

lemma is_vip_heap: "order_heap s1 = order_heap s2 \<Longrightarrow> is_vip s1 r = is_vip s2 r"
  by (simp add: is_vip_def)

lemma vip_index_heap: "order_heap s1 = order_heap s2 \<Longrightarrow> vip_index s1 xs = vip_index s2 xs"
  by (induction xs) (simp_all add: is_vip_heap [of s1 s2])

lemma vip_index_append:
  "\<forall>r\<in>set vs. is_vip s r \<Longrightarrow> \<forall>r\<in>set ns. \<not> is_vip s r \<Longrightarrow>
     vip_index s (vs @ ns) = length vs"
proof (induction vs)
  case Nil
  then show ?case by (cases ns) simp_all
next
  case (Cons v vs)
  then show ?case by simp
qed

lemma add_order_pending:
  "pending_orders (add_order t s) =
     (if upper t = ''VIP''
      then insert_at (vip_index (add_order t s) (pending_orders s)) (length (order_heap s))
             (pending_orders s)
      else pending_orders s @ [length (order_heap s)])"
proof -
  let ?s1 = "s\<lparr>order_counter := order_counter s + 1,
                 order_heap := order_heap s @ [Order (order_counter s + 1) t (now s)],
                 orders := orders s @ [length (order_heap s)]\<rparr>"
  have "order_heap ?s1 = order_heap (add_order t s)"
    by (simp add: add_order_simps)
  then have eq: "vip_index (add_order t s) (pending_orders s) = vip_index ?s1 (pending_orders s)"
    by (rule vip_index_heap [symmetric])
  show ?thesis
    unfolding eq by (simp add: add_order_def Let_def)
qed

lemma is_vip_add_order:
  "is_vip (add_order t s) r =
     (if r < length (order_heap s) then is_vip s r
      else if r = length (order_heap s) then upper t = ''VIP''
      else is_vip (add_order t s) r)"
  by (simp add: is_vip_def add_order_simps nth_append Order_def)

lemma inv_order_initial: "inv_order initial_state"
  by (simp add: inv_order_def initial_state_def)

lemma inv_order_add_order:
  assumes "inv_order s" and q: "inv_queue s"
  shows "inv_order (add_order t s)"
proof -
  let ?s = "add_order t s" and ?r = "length (order_heap s)"
  from assms(1) obtain vs ns where
    p: "pending_orders s = vs @ ns"
    and v: "\<forall>r\<in>set vs. is_vip s r" and n: "\<forall>r\<in>set ns. \<not> is_vip s r"
    and sv: "sorted_wrt (<) vs" and sn: "sorted_wrt (<) ns"
    by (auto simp: inv_order_def)
  from q p have lt: "\<forall>r\<in>set vs \<union> set ns. r < ?r"
    by (auto simp: inv_queue_def)
  from v lt have v': "\<forall>r\<in>set vs. is_vip ?s r"
    by (simp add: is_vip_add_order)
  from n lt have n': "\<forall>r\<in>set ns. \<not> is_vip ?s r"
    by (simp add: is_vip_add_order)
  show ?thesis
  proof (cases "upper t = ''VIP''")
    case True
    have "vip_index ?s (pending_orders s) = length vs"
      unfolding p using v' n' by (rule vip_index_append)
    with True have "pending_orders ?s = (vs @ [?r]) @ ns"
      by (simp add: add_order_pending p insert_at_def)
    moreover have "\<forall>r\<in>set (vs @ [?r]). is_vip ?s r"
      using v' True by (simp add: is_vip_add_order)
    moreover have "sorted_wrt (<) (vs @ [?r])"
      using sv lt by (simp add: sorted_wrt_append)
    ultimately show ?thesis
      unfolding inv_order_def using n' sn by blast
  next
    case False
    then have "pending_orders ?s = vs @ (ns @ [?r])"
      by (simp add: add_order_pending p)
    moreover have "\<forall>r\<in>set (ns @ [?r]). \<not> is_vip ?s r"
      using n' False by (simp add: is_vip_add_order)
    moreover have "sorted_wrt (<) (ns @ [?r])"
      using sn lt by (simp add: sorted_wrt_append)
    ultimately show ?thesis
      unfolding inv_order_def using v' sv by blast
  qed
qed

lemma inv_order_cong:
  assumes "inv_order s"
    and "pending_orders s' = pending_orders s"
    and "\<And>r. otype (the_order s' r) = otype (the_order s r)"
  shows "inv_order s'"
proof -
  have "is_vip s' = is_vip s"
    by (rule ext) (simp add: is_vip_def assms(3))
  with assms(1,2) show ?thesis by (simp add: inv_order_def)
qed

lemma inv_order_tail:
  assumes "inv_order s"
    and "pending_orders s = r # pending_orders s'"
    and "\<And>r. otype (the_order s' r) = otype (the_order s r)"
  shows "inv_order s'"
proof -
  have eq: "is_vip s' = is_vip s"
    by (rule ext) (simp add: is_vip_def assms(3))
  from assms(1) obtain vs ns where
    p: "pending_orders s = vs @ ns"
    and v: "\<forall>r\<in>set vs. is_vip s r" and n: "\<forall>r\<in>set ns. \<not> is_vip s r"
    and sv: "sorted_wrt (<) vs" and sn: "sorted_wrt (<) ns"
    by (auto simp: inv_order_def)
  show ?thesis
  proof (cases vs)
    case Nil
    with p assms(2) have ns: "ns = r # pending_orders s'" by simp
    have "pending_orders s' = [] @ pending_orders s'" by simp
    moreover from ns n have "\<forall>r\<in>set (pending_orders s'). \<not> is_vip s r"
      by (metis list.set_intros(2))
    moreover from ns sn have "sorted_wrt (<) (pending_orders s')"
      by (metis sorted_wrt.simps(2))
    moreover have "\<forall>r\<in>set ([]::nat list). is_vip s r" "sorted_wrt (<) ([]::nat list)"
      by simp_all
    ultimately show ?thesis
      unfolding inv_order_def eq by blast
  next
    case (Cons v' vs')
    with p assms(2) have "pending_orders s' = vs' @ ns" by simp
    moreover from Cons v sv have "\<forall>r\<in>set vs'. is_vip s r" "sorted_wrt (<) vs'" by simp_all
    ultimately show ?thesis
      unfolding inv_order_def eq using n sn by blast
  qed
qed

lemma inv_order_bot_step:
  assumes "inv_order s" and st: "bot_step a s = Some s'"
  shows "inv_order s'"
proof -
  from bot_step_orders [OF st] have ot: "\<And>r. otype (the_order s' r) = otype (the_order s r)"
    by simp
  from bot_step_queue [OF st] consider
    (same) "pending_orders s' = pending_orders s"
  | (pop) r0 where "pending_orders s = r0 # pending_orders s'"
    by auto
  then show ?thesis
  proof cases
    case same
    from assms(1) same ot show ?thesis by (rule inv_order_cong)
  next
    case pop
    from assms(1) pop ot show ?thesis by (rule inv_order_tail)
  qed
qed

lemma inv_order_main_step:
  assumes "inv_order s" and "main_step s = Some s'"
  shows "inv_order s'"
proof -
  from main_step_frame [OF assms(2)] have
    "pending_orders s' = pending_orders s" "order_heap s' = order_heap s"
    by simp_all
  then have "pending_orders s' = pending_orders s" "\<And>r. otype (the_order s' r) = otype (the_order s r)"
    by simp_all
  with assms(1) show ?thesis by (rule inv_order_cong)
qed

lemma inv_order_step:
  assumes "inv_order s" and q: "inv_queue s" and "step e s = Some s'"
  shows "inv_order s'"
  using assms(3)
proof (cases rule: step_cases)
  case (add_order t)
  show ?thesis unfolding add_order(3) using assms(1) q by (rule inv_order_add_order)
next
  case add_bot
  show ?thesis unfolding add_bot(3)
    using assms(1) by (rule inv_order_cong) (simp_all add: add_bot_simps)
next
  case remove_bot
  show ?thesis unfolding remove_bot(3)
    using assms(1) by (rule inv_order_cong) (simp_all add: remove_bot_simps)
next
  case (display f)
  from display_orders_frame [OF display(3)] obtain m where "s' = (print m s)\<lparr>returned := None\<rparr>" ..
  then have "pending_orders s' = pending_orders s" "order_heap s' = order_heap s"
    by simp_all
  then have "pending_orders s' = pending_orders s" "\<And>r. otype (the_order s' r) = otype (the_order s r)"
    by simp_all
  with assms(1) show ?thesis by (rule inv_order_cong)
next
  case shutdown
  show ?thesis unfolding shutdown(2)
    using assms(1) by (rule inv_order_cong) (simp_all add: shutdown_simps)
next
  case main_step
  from assms(1) main_step show ?thesis by (rule inv_order_main_step)
next
  case (bot_step a)
  from assms(1) bot_step show ?thesis by (rule inv_order_bot_step)
next
  case (tick d)
  show ?thesis unfolding tick(2)
    using assms(1) by (rule inv_order_cong) simp_all
qed


lemma run_reachable: "reachable s \<Longrightarrow> run es s = Some s' \<Longrightarrow> reachable s'"
proof (induction es arbitrary: s)
  case Nil
  then show ?case by simp
next
  case (Cons e es)
  then show ?case
    by (auto split: option.splits intro: reachable_step)
qed

lemma reachable_run: "run es initial_state = Some s \<Longrightarrow> reachable s"
  using reachable_initial by (rule run_reachable)

lemma reachable_queue: "reachable s \<Longrightarrow> inv_heap s \<and> inv_queue s \<and> inv_order s"
proof (induction rule: reachable.induct)
  case reachable_initial
  show ?case by (simp add: inv_heap_initial inv_queue_initial inv_order_initial)
next
  case (reachable_step s e s')
  then have "inv_heap s" "inv_queue s" "inv_order s" and st: "step e s = Some s'"
    by simp_all
  then show ?case
    using inv_heap_step [OF _ st] inv_queue_step [OF _ st] inv_order_step [OF _ _ st]
    by blast
qed

lemma filter_vips:
  assumes "\<forall>r\<in>set vs. P r" and "\<forall>r\<in>set ns. \<not> P r"
  shows "filter P (vs @ ns) = vs" and "filter (\<lambda>r. \<not> P r) (vs @ ns) = ns"
  using assms by (simp_all add: filter_id_conv filter_empty_conv)

lemma sorted_numbers:
  assumes "inv_heap s" and "\<forall>r\<in>set xs. r < length (order_heap s)" and "sorted_wrt (<) xs"
  shows "sorted_wrt (<) (map (\<lambda>r. order_number (the_order s r)) xs)"
proof -
  from assms(1,2) have eq: "map (\<lambda>r. order_number (the_order s r)) xs = map Suc xs"
    by (intro map_cong) (auto simp: inv_heap_def)
  from assms(3) show ?thesis
    unfolding eq by (simp add: sorted_wrt_map)
qed

lemma run_three_orders: "run three_orders_trace initial_state = Some three_orders"
  by code_simp

text \<open>
  Claim C2. In every state the program reaches (whatever the submissions, and whatever
  the bots and the client did in between) the pending queue consists of the VIP orders
  followed by the other orders, and inside each class the order numbers increase, that
  is, the orders stand in the order of their submission. Submitting a normal order, a
  VIP order and a normal order to the initial state gives the queue #2, #1, #3.
\<close>

theorem pending_queue_order:
  "(run es initial_state = Some s \<longrightarrow>
      pending_orders s =
        filter (is_vip s) (pending_orders s) @ filter (\<lambda>r. \<not> is_vip s r) (pending_orders s) \<and>
      sorted_wrt (<) (map (\<lambda>r. order_number (the_order s r))
                        (filter (is_vip s) (pending_orders s))) \<and>
      sorted_wrt (<) (map (\<lambda>r. order_number (the_order s r))
                        (filter (\<lambda>r. \<not> is_vip s r) (pending_orders s)))) \<and>
   map_option pending_numbers (run three_orders_trace initial_state) = Some [2, 1, 3]"
proof (intro conjI impI)
  assume "run es initial_state = Some s"
  then have "reachable s" by (rule reachable_run)
  then have h: "inv_heap s" and q: "inv_queue s" and o: "inv_order s"
    by (simp_all add: reachable_queue)
  from o obtain vs ns where
    p: "pending_orders s = vs @ ns"
    and v: "\<forall>r\<in>set vs. is_vip s r" and n: "\<forall>r\<in>set ns. \<not> is_vip s r"
    and sv: "sorted_wrt (<) vs" and sn: "sorted_wrt (<) ns"
    by (auto simp: inv_order_def)
  note f = filter_vips [OF v n]
  from q p have lv: "\<forall>r\<in>set vs. r < length (order_heap s)"
    and ln: "\<forall>r\<in>set ns. r < length (order_heap s)"
    by (auto simp: inv_queue_def)
  show "pending_orders s =
      filter (is_vip s) (pending_orders s) @ filter (\<lambda>r. \<not> is_vip s r) (pending_orders s)"
    unfolding p f ..
  show "sorted_wrt (<) (map (\<lambda>r. order_number (the_order s r))
      (filter (is_vip s) (pending_orders s)))"
    unfolding p f using h lv sv by (rule sorted_numbers)
  show "sorted_wrt (<) (map (\<lambda>r. order_number (the_order s r))
      (filter (\<lambda>r. \<not> is_vip s r) (pending_orders s)))"
    unfolding p f using h ln sn by (rule sorted_numbers)
next
  show "map_option pending_numbers (run three_orders_trace initial_state) = Some [2, 1, 3]"
    by code_simp
qed

theorem pending_queue_order_witness:
  "run three_orders_trace initial_state = Some three_orders \<and>
   pending_orders three_orders = [1, 0, 2] \<and>
   filter (is_vip three_orders) (pending_orders three_orders) = [1] \<and>
   pending_orders three_orders =
     filter (is_vip three_orders) (pending_orders three_orders) @
     filter (\<lambda>r. \<not> is_vip three_orders r) (pending_orders three_orders) \<and>
   sorted_wrt (<) (map (\<lambda>r. order_number (the_order three_orders r))
     (filter (\<lambda>r. \<not> is_vip three_orders r) (pending_orders three_orders)))"
proof -
  have "pending_orders three_orders = [1, 0, 2]" by code_simp
  moreover have "filter (is_vip three_orders) (pending_orders three_orders) = [1]" by code_simp
  ultimately show ?thesis
    using pending_queue_order [of three_orders_trace three_orders] run_three_orders
    by blast
qed


lemma inv_queue_held:
  "inv_queue s \<Longrightarrow> a < length (bot_heap s) \<Longrightarrow> holds (pc (the_bot s a)) = Some r \<Longrightarrow>
     r < length (order_heap s) \<and> r \<notin> set (pending_orders s)"
  by (simp add: inv_queue_def)



lemma step_queue_frame:
  assumes q: "inv_queue s" and st: "step e s = Some s'" and r: "r < length (order_heap s)"
  shows "(r \<in> set (pending_orders s') \<longrightarrow> r \<in> set (pending_orders s)) \<and>
         (status (the_order s' r) \<noteq> status (the_order s r) \<longrightarrow> r \<notin> set (pending_orders s))"
  using st
proof (cases rule: step_cases)
  case (add_order t)
  from r show ?thesis
    unfolding add_order(3) by (simp add: add_order_pending_set add_order_simps nth_append)
next
  case add_bot
  show ?thesis unfolding add_bot(3) by (simp add: add_bot_simps)
next
  case remove_bot
  show ?thesis unfolding remove_bot(3) by (simp add: remove_bot_simps)
next
  case (display f)
  from display_orders_frame [OF display(3)] obtain m where "s' = (print m s)\<lparr>returned := None\<rparr>" ..
  then show ?thesis by simp
next
  case shutdown
  show ?thesis unfolding shutdown(2) by (simp add: shutdown_simps)
next
  case main_step
  from main_step_frame [OF main_step] show ?thesis by simp
next
  case (bot_step a)
  note B = bot_step_bots [OF bot_step] and O = bot_step_orders [OF bot_step]
  have 1: "r \<in> set (pending_orders s)" if "r \<in> set (pending_orders s')"
    using bot_step_queue [OF bot_step] that by (auto intro: list.set_intros(2))
  have 2: "r \<notin> set (pending_orders s)" if "status (the_order s' r) \<noteq> status (the_order s r)"
  proof -
    from that O have "holds (pc (the_bot s a)) = Some r" by auto
    with q B inv_queue_held [of s a r] show ?thesis by simp
  qed
  from 1 2 show ?thesis by blast
next
  case (tick d)
  show ?thesis unfolding tick(2) by simp
qed

lemma run_taken: "run taken_trace initial_state = Some taken"
  by code_simp

lemma step_taken: "step (Bot_step 0) taken = Some taken_next"
  by code_simp

text \<open>
  Claim C10. In every reachable state every order in the pending queue has the status
  PENDING and stands there once. Moreover, in a step from such a state, an order that
  exists and is not in the queue does not enter it, and an order whose status changes
  is not in the queue.
\<close>

theorem pending_queue_holds_pending_orders_once:
  "run es initial_state = Some s \<Longrightarrow>
     (\<forall>r\<in>set (pending_orders s). status (the_order s r) = ''PENDING'') \<and>
     distinct (pending_orders s) \<and>
     (\<forall>e s' r. step e s = Some s' \<and> r < length (order_heap s) \<longrightarrow>
        (r \<in> set (pending_orders s') \<longrightarrow> r \<in> set (pending_orders s)) \<and>
        (status (the_order s' r) \<noteq> status (the_order s r) \<longrightarrow>
           r \<notin> set (pending_orders s)))"
proof -
  assume "run es initial_state = Some s"
  then have "reachable s" by (rule reachable_run)
  then have q: "inv_queue s" by (simp add: reachable_queue)
  then have "\<forall>r\<in>set (pending_orders s). status (the_order s r) = ''PENDING''"
    and "distinct (pending_orders s)"
    by (simp_all add: inv_queue_def fresh_def)
  moreover have "\<forall>e s' r. step e s = Some s' \<and> r < length (order_heap s) \<longrightarrow>
        (r \<in> set (pending_orders s') \<longrightarrow> r \<in> set (pending_orders s)) \<and>
        (status (the_order s' r) \<noteq> status (the_order s r) \<longrightarrow>
           r \<notin> set (pending_orders s))"
    using step_queue_frame [OF q] by blast
  ultimately show ?thesis by blast
qed

theorem pending_queue_holds_pending_orders_once_witness:
  "run taken_trace initial_state = Some taken \<and>
   step (Bot_step 0) taken = Some taken_next \<and>
   pending_orders taken = [0] \<and>
   status (the_order taken 0) = ''PENDING'' \<and>
   status (the_order taken 1) = ''PENDING'' \<and>
   status (the_order taken_next 1) = ''PROCESSING'' \<and>
   1 \<notin> set (pending_orders taken) \<and>
   1 \<notin> set (pending_orders taken_next)"
proof -
  have p: "pending_orders taken = [0]" by code_simp
  have l: "(1::nat) < length (order_heap taken)" by code_simp
  have s0: "status (the_order taken 1) = ''PENDING''" by code_simp
  have s1: "status (the_order taken_next 1) = ''PROCESSING''" by code_simp
  from pending_queue_holds_pending_orders_once [OF run_taken] have
    a: "\<forall>r\<in>set (pending_orders taken). status (the_order taken r) = ''PENDING''"
    and b: "\<forall>e s' r. step e taken = Some s' \<and> r < length (order_heap taken) \<longrightarrow>
        (r \<in> set (pending_orders s') \<longrightarrow> r \<in> set (pending_orders taken)) \<and>
        (status (the_order s' r) \<noteq> status (the_order taken r) \<longrightarrow>
           r \<notin> set (pending_orders taken))"
    by blast+
  from a p have "status (the_order taken 0) = ''PENDING''" by simp
  moreover from b step_taken l have c:
    "(1 \<in> set (pending_orders taken_next) \<longrightarrow> 1 \<in> set (pending_orders taken)) \<and>
     (status (the_order taken_next 1) \<noteq> status (the_order taken 1) \<longrightarrow>
        1 \<notin> set (pending_orders taken))"
    by blast
  moreover from c s0 s1 have n: "1 \<notin> set (pending_orders taken)" by simp
  moreover from c n have "1 \<notin> set (pending_orders taken_next)" by blast
  ultimately show ?thesis
    using run_taken step_taken p s0 s1 by blast
qed

subsection \<open>Submitting orders and listing them\<close>

lemma length_insert_at [simp]: "length (insert_at k x xs) = Suc (length xs)"
  by (simp add: insert_at_def)

lemma length_pending_add_order:
  "length (pending_orders (add_order t s)) = Suc (length (pending_orders s))"
  by (simp add: add_order_pending)

lemma run_submit:
  "main s = Idle \<Longrightarrow> \<not> order_lock s \<Longrightarrow> run (map Call_add_order ts) s = Some (submit ts s)"
proof (induction ts arbitrary: s)
  case Nil
  then show ?case by (simp add: submit_def)
next
  case (Cons t ts)
  from Cons.prems have "step (Call_add_order t) s = Some (add_order t s)"
    by (simp add: step_def)
  moreover from Cons.prems have "run (map Call_add_order ts) (add_order t s) = Some (submit ts (add_order t s))"
    by (intro Cons.IH) (simp_all add: add_order_simps)
  ultimately show ?case by (simp add: submit_def)
qed

lemma submit_facts:
  "all_fresh s \<Longrightarrow>
     all_fresh (submit ts s) \<and>
     length (order_heap (submit ts s)) = length (order_heap s) + length ts \<and>
     length (pending_orders (submit ts s)) = length (pending_orders s) + length ts"
proof (induction ts arbitrary: s)
  case Nil
  then show ?case by (simp add: submit_def)
next
  case (Cons t ts)
  from Cons.prems have "all_fresh (add_order t s)"
    by (auto simp: all_fresh_def add_order_simps nth_append fresh_def Order_def less_Suc_eq)
  from Cons.IH [OF this] show ?case
    by (simp add: submit_def add_order_simps length_pending_add_order)
qed

lemma display_row_fresh:
  "fresh x \<Longrightarrow> \<exists>y. display_row ''ALL'' t x = Inr (Some y) \<and> r_number y = order_number x"
  by (simp add: display_row_def fresh_def Let_def)

lemma display_loop_fresh:
  assumes "\<forall>r\<in>set rs. fresh (the_order s r)"
  shows "\<exists>rows. display_loop ''ALL'' s rs acc = Inr (acc @ rows) \<and>
            map r_number rows = map (\<lambda>r. order_number (the_order s r)) rs"
  using assms
proof (induction rs arbitrary: acc)
  case Nil
  then show ?case by simp
next
  case (Cons r rs)
  from Cons.prems display_row_fresh [of "the_order s r" "now s"] obtain y where
    y: "display_row ''ALL'' (now s) (the_order s r) = Inr (Some y)"
      "r_number y = order_number (the_order s r)"
    by auto
  from Cons.prems Cons.IH [of "acc @ [y]"] obtain rows where
    "display_loop ''ALL'' s rs (acc @ [y]) = Inr ((acc @ [y]) @ rows)"
    "map r_number rows = map (\<lambda>r. order_number (the_order s r)) rs"
    by auto
  with y have "display_loop ''ALL'' s (r # rs) acc = Inr (acc @ (y # rows))"
    "map r_number (y # rows) = map (\<lambda>r. order_number (the_order s r)) (r # rs)"
    by simp_all
  then show ?case by blast
qed

text \<open>
  Submissions alone, with no bot: \<^verbatim>\<open>add_order\<close> is a total function and makes the
  pending queue one longer. For every list of \<open>N\<close> order types, the \<open>N\<close> calls of
  \<^verbatim>\<open>add_order\<close> from the initial state all run, the queue then has \<open>N\<close> orders, and
  \<^verbatim>\<open>display_orders("ALL")\<close> collects exactly \<open>N\<close> rows, whose order numbers are
  1, 2, ..., \<open>N\<close> in this order. It prints them as a table (for \<open>N = 0\<close> there is no
  row and it prints that no order has been placed).
\<close>

lemma submit_then_display_all:
  "length (pending_orders (add_order t s)) = Suc (length (pending_orders s)) \<and>
   (\<exists>s' rows.
      run (map Call_add_order ts) initial_state = Some s' \<and>
      length (pending_orders s') = length ts \<and>
      display_loop ''ALL'' s' (orders s') [] = Inr rows \<and>
      length rows = length ts \<and>
      map r_number rows = [1..<Suc (length ts)] \<and>
      display_orders ''ALL'' s' =
        Inr ((print (if ts = [] then No_orders_placed else Table rows) s')
             \<lparr>returned := None\<rparr>))"
proof
  show "length (pending_orders (add_order t s)) = Suc (length (pending_orders s))"
    by (rule length_pending_add_order)
next
  let ?s = "submit ts initial_state"
  have r: "run (map Call_add_order ts) initial_state = Some ?s"
    by (rule run_submit) (simp_all add: initial_state_def)
  have "all_fresh initial_state"
    by (simp add: all_fresh_def initial_state_def)
  from submit_facts [OF this, of ts] have
    f: "all_fresh ?s" and n: "length (order_heap ?s) = length ts"
    and p: "length (pending_orders ?s) = length ts"
    by (simp_all add: initial_state_def)
  from r have "reachable ?s" by (rule reachable_run)
  then have h: "inv_heap ?s" by (simp add: reachable_queue)
  then have o: "orders ?s = [0..<length ts]"
    and num: "\<forall>r<length ts. order_number (the_order ?s r) = Suc r"
    using n by (simp_all add: inv_heap_def)
  from f n o have "\<forall>r\<in>set (orders ?s). fresh (the_order ?s r)"
    by (simp add: all_fresh_def)
  from display_loop_fresh [OF this, of "[]"] obtain rows where
    rows: "display_loop ''ALL'' ?s (orders ?s) [] = Inr rows"
    and ids: "map r_number rows = map (\<lambda>r. order_number (the_order ?s r)) (orders ?s)"
    by auto
  from num have "map (\<lambda>r. order_number (the_order ?s r)) [0..<length ts] = map Suc [0..<length ts]"
    by (intro map_cong) simp_all
  with ids o have ids': "map r_number rows = [1..<Suc (length ts)]"
    by (simp add: map_Suc_upt)
  then have len: "length rows = length ts"
    by (metis diff_Suc_1 length_map length_upt)
  have d: "display_orders ''ALL'' ?s =
      Inr ((print (if ts = [] then No_orders_placed else Table rows) ?s)\<lparr>returned := None\<rparr>)"
  proof (cases "ts = []")
    case True
    with o show ?thesis by (simp add: display_orders_def)
  next
    case False
    with o len have "orders ?s \<noteq> []" "rows \<noteq> []" by auto
    with rows False show ?thesis by (simp add: display_orders_def)
  qed
  from r p rows len ids' d
  show "\<exists>s' rows.
      run (map Call_add_order ts) initial_state = Some s' \<and>
      length (pending_orders s') = length ts \<and>
      display_loop ''ALL'' s' (orders s') [] = Inr rows \<and>
      length rows = length ts \<and>
      map r_number rows = [1..<Suc (length ts)] \<and>
      display_orders ''ALL'' s' =
        Inr ((print (if ts = [] then No_orders_placed else Table rows) s')
             \<lparr>returned := None\<rparr>)"
    by blast
qed

subsection \<open>The threads\<close>

lemma inv_threads_initial: "inv_threads initial_state"
  by (simp add: inv_threads_def initial_state_def)

lemma bot_step_thread:
  "bot_step a s = Some s' \<Longrightarrow>
     current_order (the_bot s a) = cur_of (pc (the_bot s a)) \<Longrightarrow>
     (stopping (pc (the_bot s a)) \<longrightarrow> stop_event (the_bot s a)) \<Longrightarrow>
     current_order (the_bot s' a) = cur_of (pc (the_bot s' a)) \<and>
     (stopping (pc (the_bot s' a)) \<longrightarrow> stop_event (the_bot s' a))"
  by (cases "pc (the_bot s a)")
    (auto simp: bot_step_def get_next_order_def split: if_splits list.splits)

lemma bot_step_not_finished:
  "bot_step a s = Some s' \<Longrightarrow> pc (the_bot s a) \<noteq> Finished"
  by (auto simp: bot_step_def split: if_splits)

lemma inv_threads_bot_step:
  assumes "inv_threads s" and st: "bot_step a s = Some s'"
  shows "inv_threads s'"
  unfolding inv_threads_def
proof (intro allI impI)
  fix b assume "b < length (bot_heap s')"
  with bot_step_bots [OF st] have b: "b < length (bot_heap s)" by simp
  with assms(1) have *: "current_order (the_bot s b) = cur_of (pc (the_bot s b))"
    "stopping (pc (the_bot s b)) \<longrightarrow> stop_event (the_bot s b)"
    by (simp_all add: inv_threads_def)
  show "current_order (the_bot s' b) = cur_of (pc (the_bot s' b)) \<and>
        (stopping (pc (the_bot s' b)) \<longrightarrow> stop_event (the_bot s' b))"
  proof (cases "b = a")
    case True
    with * bot_step_thread [OF st] show ?thesis by simp
  next
    case False
    with * bot_step_bots [OF st] show ?thesis by simp
  qed
qed

lemma inv_threads_cong:
  assumes "inv_threads s" and "bot_heap s' = bot_heap s"
  shows "inv_threads s'"
  using assms by (simp add: inv_threads_def)

lemma inv_threads_main_step:
  assumes "inv_threads s" and st: "main_step s = Some s'"
  shows "inv_threads s'"
  unfolding inv_threads_def
proof (intro allI impI)
  fix b assume "b < length (bot_heap s')"
  with main_step_frame [OF st] have b: "b < length (bot_heap s)" by simp
  with assms(1) have *: "current_order (the_bot s b) = cur_of (pc (the_bot s b))"
    "stopping (pc (the_bot s b)) \<longrightarrow> stop_event (the_bot s b)"
    by (simp_all add: inv_threads_def)
  from main_step_frame [OF st] have
    "pc (the_bot s' b) = pc (the_bot s b)"
    "current_order (the_bot s' b) = current_order (the_bot s b)"
    "stop_event (the_bot s b) \<longrightarrow> stop_event (the_bot s' b)"
    by simp_all
  with * show "current_order (the_bot s' b) = cur_of (pc (the_bot s' b)) \<and>
        (stopping (pc (the_bot s' b)) \<longrightarrow> stop_event (the_bot s' b))"
    by simp
qed

lemma inv_threads_add_bot: "inv_threads s \<Longrightarrow> inv_threads (add_bot s)"
  by (auto simp: inv_threads_def add_bot_simps nth_append Bot_def)

lemma inv_threads_step:
  assumes "inv_threads s" and "step e s = Some s'"
  shows "inv_threads s'"
  using assms(2)
proof (cases rule: step_cases)
  case (add_order t)
  show ?thesis unfolding add_order(3)
    using assms(1) by (rule inv_threads_cong) (simp add: add_order_simps)
next
  case add_bot
  show ?thesis unfolding add_bot(3) using assms(1) by (rule inv_threads_add_bot)
next
  case remove_bot
  show ?thesis unfolding remove_bot(3)
    using assms(1) by (rule inv_threads_cong) (simp add: remove_bot_simps)
next
  case (display f)
  from display_orders_frame [OF display(3)] obtain m where "s' = (print m s)\<lparr>returned := None\<rparr>" ..
  then have "bot_heap s' = bot_heap s" by simp
  with assms(1) show ?thesis by (rule inv_threads_cong)
next
  case shutdown
  show ?thesis unfolding shutdown(2)
    using assms(1) by (rule inv_threads_cong) (simp add: shutdown_simps)
next
  case main_step
  from assms(1) main_step show ?thesis by (rule inv_threads_main_step)
next
  case (bot_step a)
  from assms(1) bot_step show ?thesis by (rule inv_threads_bot_step)
next
  case (tick d)
  show ?thesis unfolding tick(2)
    using assms(1) by (rule inv_threads_cong) simp
qed


lemma inv_main_initial: "inv_main initial_state"
  by (simp add: inv_main_def initial_state_def)

lemma caller_ok_mono:
  assumes "caller_ok s a c" and "order_lock s' = order_lock s" and "bots s' = bots s"
    and "\<And>b. pc (the_bot s b) = Finished \<Longrightarrow> pc (the_bot s' b) = Finished"
  shows "caller_ok s' a c"
  using assms by (cases c) (auto simp: joined_def)

lemma main_ok_mono:
  assumes "main_ok s m" and "order_lock s' = order_lock s" and "bots s' = bots s"
    and "length (bot_heap s') = length (bot_heap s)"
    and "\<And>b. pc (the_bot s b) = Finished \<Longrightarrow> pc (the_bot s' b) = Finished"
    and "\<And>b. stop_event (the_bot s b) \<Longrightarrow> stop_event (the_bot s' b)"
  shows "main_ok s' m"
proof (cases m)
  case Idle
  with assms show ?thesis by simp
next
  case (Stop53 a c)
  with assms caller_ok_mono [of s a c s'] show ?thesis by simp
next
  case (Stop54 a c)
  with assms caller_ok_mono [of s a c s'] show ?thesis by simp
next
  case (Stop56 a c)
  with assms caller_ok_mono [of s a c s'] show ?thesis by simp
next
  case (Shutdown_loop rest)
  with assms show ?thesis by (auto simp: joined_def)
qed

lemma inv_main_mono:
  assumes "inv_main s" and "main s' = main s"
    and "order_lock s' = order_lock s" and "bots s' = bots s"
    and "length (bot_heap s') = length (bot_heap s)"
    and "\<And>b. pc (the_bot s b) = Finished \<Longrightarrow> pc (the_bot s' b) = Finished"
    and "\<And>b. stop_event (the_bot s b) \<Longrightarrow> stop_event (the_bot s' b)"
  shows "inv_main s'"
proof -
  from assms(1) have "main_ok s (main s)" by (simp add: inv_main_def)
  then have "main_ok s' (main s)" using assms(3-7) by (rule main_ok_mono)
  with assms(1,2,4,5) show ?thesis by (simp add: inv_main_def)
qed

lemma inv_main_bot_step:
  assumes "inv_main s" and st: "bot_step a s = Some s'"
  shows "inv_main s'"
proof -
  note B = bot_step_bots [OF st] and C = bot_step_ctl [OF st]
  have fin: "pc (the_bot s' b) = Finished" if "pc (the_bot s b) = Finished" for b
    using that B bot_step_not_finished [OF st] by (cases "b = a") auto
  have stop: "stop_event (the_bot s' b)" if "stop_event (the_bot s b)" for b
    using that B by (cases "b = a") auto
  from assms(1) C B fin stop show ?thesis
    by (intro inv_main_mono [of s s']) simp_all
qed

lemma inv_main_add_bot:
  assumes "inv_main s" and "main s = Idle"
  shows "inv_main (add_bot s)"
proof -
  from assms have "\<forall>a\<in>set (bots s). a < length (bot_heap s)" "sorted_wrt (<) (bots s)"
    "\<not> order_lock s"
    by (simp_all add: inv_main_def)
  with assms(2) show ?thesis
    by (auto simp: inv_main_def add_bot_simps sorted_wrt_append)
qed

lemma inv_main_remove_bot:
  assumes "inv_main s" and "main s = Idle"
  shows "inv_main (remove_bot s)"
proof (cases "bots s = []")
  case True
  with assms show ?thesis by (simp add: inv_main_def remove_bot_def)
next
  case False
  then have bs: "bots s = butlast (bots s) @ [last (bots s)]" by simp
  from assms have v: "\<forall>a\<in>set (bots s). a < length (bot_heap s)"
    and so: "sorted_wrt (<) (bots s)"
    by (simp_all add: inv_main_def)
  from so bs have so': "sorted_wrt (<) (butlast (bots s))"
    and lt: "\<forall>b\<in>set (butlast (bots s)). b < last (bots s)"
    by (metis sorted_wrt_append, metis sorted_wrt_append list.set_intros(1))
  from v False have l: "last (bots s) < length (bot_heap s)" by simp
  from v have v': "\<forall>a\<in>set (butlast (bots s)). a < length (bot_heap s)"
    by (meson in_set_butlastD)
  from False so' lt l v' show ?thesis
    by (simp add: inv_main_def remove_bot_def)
qed

lemma inv_main_shutdown:
  assumes "inv_main s" and "main s = Idle"
  shows "inv_main (shutdown s)"
proof -
  have "bots s = [] @ bots s \<and> joined (shutdown s) []" by (simp add: joined_def)
  then have "\<exists>done. bots s = done @ bots s \<and> joined (shutdown s) done" by blast
  with assms show ?thesis
    by (simp add: inv_main_def shutdown_simps)
qed

lemma inv_main_main_step:
  assumes "inv_main s" and st: "main_step s = Some s'"
  shows "inv_main s'"
proof -
  from assms(1) have v: "\<forall>a\<in>set (bots s). a < length (bot_heap s)"
    and so: "sorted_wrt (<) (bots s)" and ok: "main_ok s (main s)"
    by (simp_all add: inv_main_def)
  note F = main_step_frame [OF st]
  from F v so have v': "\<forall>a\<in>set (bots s'). a < length (bot_heap s')"
    and so': "sorted_wrt (<) (bots s')"
    by simp_all
  have "main_ok s' (main s')"
  proof (cases "main s")
    case Idle
    with st show ?thesis by (simp add: main_step_def)
  next
    case (Stop53 a c)
    with st have s': "s' = (upd_bot a (\<lambda>b. b\<lparr>stop_event := True\<rparr>) s)\<lparr>main := Stop54 a c\<rparr>"
      by (simp add: main_step_def)
    from ok Stop53 have a: "a < length (bot_heap s)" and c: "caller_ok s a c" by simp_all
    from c have "caller_ok s' a c"
      by (rule caller_ok_mono) (auto simp: s')
    with a show ?thesis by (simp add: s')
  next
    case (Stop54 a c)
    with st have s': "main s' = Stop56 a c" "order_lock s' = order_lock s"
      "bot_heap s' = bot_heap s" "bots s' = bots s"
      by (auto simp: main_step_def split: if_splits)
    from ok Stop54 have a: "a < length (bot_heap s)" and c: "caller_ok s a c"
      and e: "stop_event (the_bot s a)" by simp_all
    from c have "caller_ok s' a c"
      by (rule caller_ok_mono) (simp_all add: s')
    with a e show ?thesis by (simp add: s')
  next
    case (Stop56 a c)
    from ok Stop56 have a: "a < length (bot_heap s)" and c: "caller_ok s a c" by simp_all
    from st Stop56 have fin: "pc (the_bot s a) = Finished"
      by (auto simp: main_step_def split: if_splits)
    show ?thesis
    proof (cases c)
      case In_remove_bot
      with st Stop56 fin have "main s' = Idle" "\<not> order_lock s'"
        by (auto simp: main_step_def)
      then show ?thesis by simp
    next
      case (In_shutdown rest)
      with st Stop56 fin have s': "s' = s\<lparr>main := Shutdown_loop rest\<rparr>"
        by (simp add: main_step_def)
      from c In_shutdown obtain dn where
        "\<not> order_lock s" "bots s = dn @ a # rest" "joined s dn"
        by auto
      with fin have "\<not> order_lock s'" "bots s' = (dn @ [a]) @ rest" "joined s' (dn @ [a])"
        by (simp_all add: s' joined_def)
      then show ?thesis unfolding s' by (auto simp del: append_assoc)
    qed
  next
    case (Shutdown_loop rest)
    show ?thesis
    proof (cases rest)
      case Nil
      with ok st Shutdown_loop have "main s' = Idle" "\<not> order_lock s'"
        by (auto simp: main_step_def)
      then show ?thesis by simp
    next
      case (Cons a rest')
      with st Shutdown_loop have s': "s' = s\<lparr>main := Stop53 a (In_shutdown rest')\<rparr>"
        by (simp add: main_step_def)
      from ok Shutdown_loop Cons obtain dn where
        d: "\<not> order_lock s" "bots s = dn @ a # rest'" "joined s dn"
        by auto
      with v have "a < length (bot_heap s)" by simp
      with d show ?thesis unfolding s' by (auto simp: joined_def)
    qed
  qed
  with v' so' show ?thesis by (simp add: inv_main_def)
qed

lemma inv_main_step:
  assumes "inv_main s" and "step e s = Some s'"
  shows "inv_main s'"
  using assms(2)
proof (cases rule: step_cases)
  case (add_order t)
  show ?thesis unfolding add_order(3)
    using assms(1) by (rule inv_main_mono) (simp_all add: add_order_simps)
next
  case add_bot
  show ?thesis unfolding add_bot(3) using assms(1) add_bot(1) by (rule inv_main_add_bot)
next
  case remove_bot
  show ?thesis unfolding remove_bot(3) using assms(1) remove_bot(1) by (rule inv_main_remove_bot)
next
  case (display f)
  from display_orders_frame [OF display(3)] obtain m where "s' = (print m s)\<lparr>returned := None\<rparr>" ..
  with assms(1) show ?thesis by (intro inv_main_mono [of s s']) simp_all
next
  case shutdown
  show ?thesis unfolding shutdown(2) using assms(1) shutdown(1) by (rule inv_main_shutdown)
next
  case main_step
  from assms(1) main_step show ?thesis by (rule inv_main_main_step)
next
  case (bot_step a)
  from assms(1) bot_step show ?thesis by (rule inv_main_bot_step)
next
  case (tick d)
  show ?thesis unfolding tick(2)
    using assms(1) by (rule inv_main_mono) simp_all
qed

lemma reachable_threads: "reachable s \<Longrightarrow> inv_threads s \<and> inv_main s"
proof (induction rule: reachable.induct)
  case reachable_initial
  show ?case by (simp add: inv_threads_initial inv_main_initial)
next
  case (reachable_step s e s')
  then have "inv_threads s" "inv_main s" and st: "step e s = Some s'"
    by simp_all
  then show ?case
    using inv_threads_step [OF _ st] inv_main_step [OF _ st] by blast
qed

subsection \<open>shutdown\<close>

lemma upd_bot_same:
  "f (the_bot s a) = the_bot s a \<Longrightarrow> upd_bot a f s = s"
  by (simp add: upd_bot_def)

lemma shutdown_loop_round:
  assumes "main s = Shutdown_loop (a # rest)"
    and "pc (the_bot s a) = Finished" and "stop_event (the_bot s a)"
    and "current_order (the_bot s a) = None"
  shows "run [Main_step, Main_step, Main_step, Main_step] s = Some (s\<lparr>main := Shutdown_loop rest\<rparr>)"
proof -
  let ?s1 = "s\<lparr>main := Stop53 a (In_shutdown rest)\<rparr>"
  let ?s2 = "s\<lparr>main := Stop54 a (In_shutdown rest)\<rparr>"
  let ?s3 = "s\<lparr>main := Stop56 a (In_shutdown rest)\<rparr>"
  from assms(1) have 1: "step Main_step s = Some ?s1"
    by (simp add: step_def main_step_def)
  from assms(3) have "(the_bot ?s1 a)\<lparr>stop_event := True\<rparr> = the_bot ?s1 a" by simp
  then have "upd_bot a (\<lambda>b. b\<lparr>stop_event := True\<rparr>) ?s1 = ?s1" by (rule upd_bot_same)
  then have 2: "step Main_step ?s1 = Some ?s2"
    by (simp add: step_def main_step_def)
  from assms(4) have 3: "step Main_step ?s2 = Some ?s3"
    by (simp add: step_def main_step_def)
  from assms(2) have 4: "step Main_step ?s3 = Some (s\<lparr>main := Shutdown_loop rest\<rparr>)"
    by (simp add: step_def main_step_def)
  from 1 2 3 4 show ?thesis by simp
qed

lemma run_append:
  "run (es @ es') s = (case run es s of None \<Rightarrow> None | Some s' \<Rightarrow> run es' s')"
  by (induction es arbitrary: s) (simp_all split: option.splits)

lemma shutdown_loop_finished:
  assumes "main s = Shutdown_loop rest"
    and "\<forall>a\<in>set rest. pc (the_bot s a) = Finished \<and> stop_event (the_bot s a) \<and>
           current_order (the_bot s a) = None"
  shows "run (replicate (4 * length rest + 1) Main_step) s =
           Some ((print All_shut_down s)\<lparr>main := Idle, returned := None\<rparr>)"
  using assms
proof (induction rest arbitrary: s)
  case Nil
  then show ?case by (simp add: step_def main_step_def)
next
  case (Cons a rest)
  let ?s = "s\<lparr>main := Shutdown_loop rest\<rparr>"
  have "4 * length (a # rest) + 1 = Suc (Suc (Suc (Suc (4 * length rest + 1))))"
    by simp
  then have n: "replicate (4 * length (a # rest) + 1) Main_step =
      [Main_step, Main_step, Main_step, Main_step] @ replicate (4 * length rest + 1) Main_step"
    by (simp only: replicate_Suc append_Cons append_Nil)
  have r: "run [Main_step, Main_step, Main_step, Main_step] s = Some ?s"
    using Cons.prems by (intro shutdown_loop_round) auto
  have "run (replicate (4 * length rest + 1) Main_step) ?s =
      Some ((print All_shut_down ?s)\<lparr>main := Idle, returned := None\<rparr>)"
    using Cons.prems by (intro Cons.IH) auto
  moreover have "(print All_shut_down ?s)\<lparr>main := Idle, returned := None\<rparr> =
      (print All_shut_down s)\<lparr>main := Idle, returned := None\<rparr>"
    by (simp add: print_def)
  ultimately show ?case
    unfolding n run_append r by simp
qed

lemma run_shutdown_returning: "run shutdown_trace initial_state = Some shutdown_returning"
  by code_simp

lemma main_shutdown_returning: "main shutdown_returning = Shutdown_loop []"
  by code_simp

text \<open>
  Claim C6. \<^verbatim>\<open>shutdown\<close> is idempotent. Take any run of the program up to the point
  where a call of \<^verbatim>\<open>shutdown\<close> has left its loop and is about to return. Then every
  bot of the pool has ended, with its stop event set. The call returns, and a second
  call right after it runs through without waiting at any \<^verbatim>\<open>join\<close>, returns, and
  leaves the state the first call left, but for the two lines it prints.
\<close>

theorem shutdown_twice:
  assumes "run es initial_state = Some s" and "main s = Shutdown_loop []"
  shows "(\<forall>a\<in>set (bots s). pc (the_bot s a) = Finished \<and> stop_event (the_bot s a)) \<and>
         (\<exists>s1. step Main_step s = Some s1 \<and> main s1 = Idle \<and>
            run (shutdown_events (length (bots s1))) s1 =
              Some (s1\<lparr>console := console s1 @ [Shutting_down, All_shut_down]\<rparr>))"
proof -
  from assms(1) have "reachable s" by (rule reachable_run)
  then have t: "inv_threads s" and m: "inv_main s" by (simp_all add: reachable_threads)
  from m assms(2) have v: "\<forall>a\<in>set (bots s). a < length (bot_heap s)"
    and f: "\<forall>a\<in>set (bots s). pc (the_bot s a) = Finished"
    by (auto simp: inv_main_def joined_def)
  from t v f have e: "\<forall>a\<in>set (bots s). stop_event (the_bot s a) \<and> current_order (the_bot s a) = None"
    by (auto simp: inv_threads_def)
  let ?s1 = "(print All_shut_down s)\<lparr>main := Idle, returned := None\<rparr>"
  let ?s2 = "shutdown ?s1"
  from assms(2) have 1: "step Main_step s = Some ?s1"
    by (simp add: step_def main_step_def)
  have 2: "step Call_shutdown ?s1 = Some ?s2"
    by (simp add: step_def)
  have "run (replicate (4 * length (bots s) + 1) Main_step) ?s2 =
      Some ((print All_shut_down ?s2)\<lparr>main := Idle, returned := None\<rparr>)"
    using f e by (intro shutdown_loop_finished) (auto simp: shutdown_def)
  moreover have "(print All_shut_down ?s2)\<lparr>main := Idle, returned := None\<rparr> =
      ?s1\<lparr>console := console ?s1 @ [Shutting_down, All_shut_down]\<rparr>"
    by (simp add: shutdown_def print_def)
  ultimately have "run (shutdown_events (length (bots ?s1))) ?s1 =
      Some (?s1\<lparr>console := console ?s1 @ [Shutting_down, All_shut_down]\<rparr>)"
    using 2 by (simp add: shutdown_events_def)
  moreover have "main ?s1 = Idle" by simp
  ultimately have "\<exists>s1. step Main_step s = Some s1 \<and> main s1 = Idle \<and>
            run (shutdown_events (length (bots s1))) s1 =
              Some (s1\<lparr>console := console s1 @ [Shutting_down, All_shut_down]\<rparr>)"
    using 1 by blast
  with f e show ?thesis by blast
qed

theorem shutdown_twice_witness:
  "run shutdown_trace initial_state = Some shutdown_returning \<and>
   main shutdown_returning = Shutdown_loop [] \<and>
   bots shutdown_returning = [0, 1] \<and>
   pc (the_bot shutdown_returning 0) = Finished \<and>
   pc (the_bot shutdown_returning 1) = Finished \<and>
   step Main_step shutdown_returning = Some shutdown_returned \<and>
   run (shutdown_events 2) shutdown_returned =
     Some (shutdown_returned\<lparr>console := console shutdown_returned @
                                 [Shutting_down, All_shut_down]\<rparr>)"
proof -
  have b: "bots shutdown_returning = [0, 1]" by code_simp
  have s: "step Main_step shutdown_returning = Some shutdown_returned" by code_simp
  have l: "length (bots shutdown_returned) = 2" by code_simp
  from shutdown_twice [OF run_shutdown_returning main_shutdown_returning] b s l
  show ?thesis
    using run_shutdown_returning main_shutdown_returning by auto
qed

subsection \<open>remove_bot: the lock held across join, and the order given up\<close>

lemma stuck_step:
  assumes "stuck a s" and "step e s = Some s'"
  shows "stuck a s'"
  using assms(2)
proof (cases rule: step_cases)
  case (add_order t)
  with assms(1) show ?thesis by (simp add: stuck_def)
next
  case add_bot
  with assms(1) show ?thesis by (simp add: stuck_def)
next
  case remove_bot
  with assms(1) show ?thesis by (simp add: stuck_def)
next
  case (display f)
  with assms(1) show ?thesis by (simp add: stuck_def)
next
  case shutdown
  with assms(1) show ?thesis by (simp add: stuck_def)
next
  case main_step
  with assms(1) show ?thesis by (simp add: stuck_def main_step_def)
next
  case (bot_step b)
  have "b \<noteq> a"
  proof
    assume "b = a"
    with assms(1) have "bot_step b s = None" by (simp add: stuck_def bot_step_def)
    with bot_step show False by simp
  qed
  with assms(1) bot_step_bots [OF bot_step] bot_step_ctl [OF bot_step] show ?thesis
    by (simp add: stuck_def)
next
  case (tick d)
  with assms(1) show ?thesis by (simp add: stuck_def)
qed

lemma stuck_run: "stuck a s \<Longrightarrow> run es s = Some s' \<Longrightarrow> stuck a s'"
proof (induction es arbitrary: s)
  case Nil
  then show ?case by simp
next
  case (Cons e es)
  then show ?case
    by (auto split: option.splits dest: stuck_step)
qed

lemma run_deadlock_trace: "run deadlock_trace initial_state = Some deadlocked"
  by code_simp

lemma stuck_deadlocked: "stuck 0 deadlocked"
  by code_simp

text \<open>
  Claim C9, refuted on the code. \<^verbatim>\<open>remove_bot\<close> calls \<^verbatim>\<open>bot.stop()\<close>, hence \<^verbatim>\<open>join\<close>,
  inside \<^verbatim>\<open>with self.order_lock\<close>. In the run \<open>deadlock_trace\<close> the client holds the
  lock and waits for the bot to end, while the bot waits for the lock in
  \<^verbatim>\<open>get_next_order\<close>: neither thread can move, and in every continuation of the run
  both stand where they stood.
\<close>

theorem remove_bot_deadlock:
  "run deadlock_trace initial_state = Some deadlocked \<and>
   order_lock deadlocked \<and> main deadlocked = Stop56 0 In_remove_bot \<and>
   pc (the_bot deadlocked 0) = L30 \<and>
   step Main_step deadlocked = None \<and> step (Bot_step 0) deadlocked = None \<and>
   (\<forall>es s. run es deadlocked = Some s \<longrightarrow>
      order_lock s \<and> main s = Stop56 0 In_remove_bot \<and> pc (the_bot s 0) = L30)"
proof -
  have "step Main_step deadlocked = None" "step (Bot_step 0) deadlocked = None"
    by code_simp+
  moreover have "\<forall>es s. run es deadlocked = Some s \<longrightarrow>
      order_lock s \<and> main s = Stop56 0 In_remove_bot \<and> pc (the_bot s 0) = L30"
    using stuck_run [OF stuck_deadlocked] by (simp add: stuck_def)
  ultimately show ?thesis
    using run_deadlock_trace stuck_deadlocked by (simp add: stuck_def)
qed

theorem remove_bot_deadlock_witness:
  "run [Tick 60000000, Tick 1] deadlocked = Some deadlocked_later \<and>
   now deadlocked_later = 60000001 \<and>
   order_lock deadlocked_later \<and> main deadlocked_later = Stop56 0 In_remove_bot \<and>
   pc (the_bot deadlocked_later 0) = L30"
proof -
  have r: "run [Tick 60000000, Tick 1] deadlocked = Some deadlocked_later" by code_simp
  have n: "now deadlocked_later = 60000001" by code_simp
  from remove_bot_deadlock r n show ?thesis by blast
qed

lemma run_mid_task: "run mid_task_trace initial_state = Some mid_task"
  by code_simp

lemma run_removal: "run removal_trace mid_task = Some after_removal"
  by code_simp

lemma never_queued_again:
  assumes "reachable s" and "r < length (order_heap s)" and "r \<notin> set (pending_orders s)"
    and "run es s = Some s'"
  shows "r \<notin> set (pending_orders s')"
  using assms
proof (induction es arbitrary: s)
  case Nil
  then show ?case by simp
next
  case (Cons e es)
  from Cons.prems(4) obtain s1 where st: "step e s = Some s1" and r: "run es s1 = Some s'"
    by (auto split: option.splits)
  from Cons.prems(1) have q: "inv_queue s" by (simp add: reachable_queue)
  from step_queue_frame [OF q st Cons.prems(2)] Cons.prems(3)
  have 1: "r \<notin> set (pending_orders s1)" by blast
  from Cons.prems(1) st have 2: "reachable s1" by (rule reachable_step)
  have "length (order_heap s) \<le> length (order_heap s1)"
    using st
  proof (cases rule: step_cases)
    case (display f)
    from display_orders_frame [OF display(3)] show ?thesis by auto
  qed (simp_all add: add_order_simps add_bot_simps remove_bot_simps shutdown_simps
        main_step_frame bot_step_orders)
  with Cons.prems(2) have 3: "r < length (order_heap s1)" by simp
  from 2 3 1 r show ?case by (rule Cons.IH)
qed

text \<open>
  Claim C1, refuted on the code. The only bot holds order #1 in progress when
  \<^verbatim>\<open>remove_bot\<close> is called. When \<^verbatim>\<open>remove_bot\<close> has returned, the status of the
  order is PENDING again and its start time is cleared, but the order is not in the
  pending queue, which is empty; and in no continuation of the run is it ever in the
  queue again.
\<close>

theorem remove_bot_loses_order:
  "run mid_task_trace initial_state = Some mid_task \<and>
   main mid_task = Idle \<and> bots mid_task = [0] \<and>
   current_order (the_bot mid_task 0) = Some 0 \<and>
   status (the_order mid_task 0) = ''PROCESSING'' \<and>
   run removal_trace mid_task = Some after_removal \<and>
   main after_removal = Idle \<and> bots after_removal = [] \<and>
   pc (the_bot after_removal 0) = Finished \<and>
   status (the_order after_removal 0) = ''PENDING'' \<and>
   start_time (the_order after_removal 0) = None \<and>
   pending_orders after_removal = [] \<and>
   (\<forall>es s. run es after_removal = Some s \<longrightarrow> 0 \<notin> set (pending_orders s))"
proof -
  have "main mid_task = Idle" "bots mid_task = [0]"
    "current_order (the_bot mid_task 0) = Some 0"
    "status (the_order mid_task 0) = ''PROCESSING''"
    by code_simp+
  moreover have p: "main after_removal = Idle" "bots after_removal = []"
    "pc (the_bot after_removal 0) = Finished"
    "status (the_order after_removal 0) = ''PENDING''"
    "start_time (the_order after_removal 0) = None"
    "pending_orders after_removal = []"
    by code_simp+
  moreover have "\<forall>es s. run es after_removal = Some s \<longrightarrow> 0 \<notin> set (pending_orders s)"
  proof (intro allI impI)
    fix es s assume r: "run es after_removal = Some s"
    have "reachable mid_task" using run_mid_task by (rule reachable_run)
    then have "reachable after_removal" using run_removal by (rule run_reachable)
    moreover have "0 < length (order_heap after_removal)" by code_simp
    moreover from p have "0 \<notin> set (pending_orders after_removal)" by simp
    ultimately show "0 \<notin> set (pending_orders s)" using r by (rule never_queued_again)
  qed
  ultimately show ?thesis
    using run_mid_task run_removal by simp
qed

theorem remove_bot_loses_order_witness:
  "run [Call_add_bot, Bot_step 1, Bot_step 1] after_removal = Some after_removal_new_bot \<and>
   pc (the_bot after_removal_new_bot 1) = L50 \<and>
   status (the_order after_removal_new_bot 0) = ''PENDING'' \<and>
   0 \<notin> set (pending_orders after_removal_new_bot)"
proof -
  have r: "run [Call_add_bot, Bot_step 1, Bot_step 1] after_removal = Some after_removal_new_bot"
    by code_simp
  have "pc (the_bot after_removal_new_bot 1) = L50"
    "status (the_order after_removal_new_bot 0) = ''PENDING''"
    by code_simp+
  with remove_bot_loses_order r show ?thesis by blast
qed

subsection \<open>The call of get_next_order, and display_orders on an order without start time\<close>







lemma run_unstamped: "run unstamped_trace initial_state = Some unstamped"
  by code_simp

text \<open>
  Claim C3, refuted on the code. One order has been submitted and a bot has set its
  status to PROCESSING (line 33) but not yet its start time (line 34). Then
  \<^verbatim>\<open>display_orders("ALL")\<close> returns no record at all: line 151 subtracts from
  \<^verbatim>\<open>order.start_time\<close>, which is \<^verbatim>\<open>None\<close>, and raises \<^verbatim>\<open>TypeError\<close>; the menu loop
  is left and \<^verbatim>\<open>shutdown\<close> runs.
\<close>

theorem display_orders_all_raises:
  "run unstamped_trace initial_state = Some unstamped \<and>
   main unstamped = Idle \<and> orders unstamped = [0] \<and>
   pc (the_bot unstamped 0) = L34 0 \<and>
   status (the_order unstamped 0) = ''PROCESSING'' \<and>
   start_time (the_order unstamped 0) = None \<and>
   display_orders ''ALL'' unstamped = Inl TypeError \<and>
   step (Call_display_orders ''ALL'') unstamped = Some (shutdown unstamped)"
proof -
  have "main unstamped = Idle" "orders unstamped = [0]"
    "pc (the_bot unstamped 0) = L34 0"
    "status (the_order unstamped 0) = ''PROCESSING''"
    "start_time (the_order unstamped 0) = None"
    "display_orders ''ALL'' unstamped = Inl TypeError"
    "step (Call_display_orders ''ALL'') unstamped = Some (shutdown unstamped)"
    by code_simp+
  with run_unstamped show ?thesis by simp
qed

subsection \<open>remove_bot: which bot, and what the call returns\<close>

lemma in_remove_step:
  assumes re: "reachable s" and ir: "in_remove a s" and st: "step e s = Some s'"
  shows "(in_remove a s' \<and> bots s' = bots s \<and> bot_id (the_bot s' a) = bot_id (the_bot s a)) \<or>
         (main s' = Idle \<and> returned s' = None \<and> bots s' = bots s \<and>
          console s' = console s @ [Removed_bot (bot_id (the_bot s a))] \<and>
          pc (the_bot s' a) = Finished \<and> stop_event (the_bot s' a))"
  using st
proof (cases rule: step_cases)
  case (add_order t)
  with ir show ?thesis by (simp add: in_remove_def)
next
  case add_bot
  with ir show ?thesis by (simp add: in_remove_def)
next
  case remove_bot
  with ir show ?thesis by (simp add: in_remove_def)
next
  case (display f)
  with ir show ?thesis by (simp add: in_remove_def)
next
  case shutdown
  with ir show ?thesis by (simp add: in_remove_def)
next
  case main_step
  from re have "inv_main s" by (simp add: reachable_threads)
  then have ok: "main_ok s (main s)" by (simp add: inv_main_def)
  from ir consider "main s = Stop53 a In_remove_bot" | "main s = Stop54 a In_remove_bot"
    | "main s = Stop56 a In_remove_bot"
    by (auto simp: in_remove_def)
  then show ?thesis
  proof cases
    case 1
    with main_step have "main s' = Stop54 a In_remove_bot"
      by (auto simp: main_step_def)
    with main_step_frame [OF main_step] show ?thesis
      by (simp add: in_remove_def)
  next
    case 2
    with main_step have "main s' = Stop56 a In_remove_bot"
      by (auto simp: main_step_def)
    with main_step_frame [OF main_step] show ?thesis
      by (simp add: in_remove_def)
  next
    case 3
    with ok have "stop_event (the_bot s a)" by simp
    with 3 main_step show ?thesis
      by (auto simp: main_step_def split: if_splits)
  qed
next
  case (bot_step b)
  from bot_step_bots [OF bot_step] have "bot_id (the_bot s' a) = bot_id (the_bot s a)"
    by (cases "a = b") auto
  with ir bot_step_ctl [OF bot_step] show ?thesis
    by (simp add: in_remove_def)
next
  case (tick d)
  with ir show ?thesis by (simp add: in_remove_def)
qed

lemma until_idle_remove:
  assumes "reachable s" and "in_remove a s" and "until_idle es s = Some s'"
  shows "main s' = Idle \<and> returned s' = None \<and> bots s' = bots s \<and>
         last (console s') = Removed_bot (bot_id (the_bot s a)) \<and>
         pc (the_bot s' a) = Finished \<and> stop_event (the_bot s' a)"
  using assms
proof (induction es arbitrary: s)
  case Nil
  then show ?case by simp
next
  case (Cons e es)
  from Cons.prems(3) obtain s1 where st: "step e s = Some s1"
    by (auto split: option.splits)
  from Cons.prems(1) st have re: "reachable s1" by (rule reachable_step)
  from in_remove_step [OF Cons.prems(1,2) st] show ?case
  proof (elim disjE conjE)
    assume ir: "in_remove a s1" and b: "bots s1 = bots s"
      and i: "bot_id (the_bot s1 a) = bot_id (the_bot s a)"
    from ir have "main s1 \<noteq> Idle" by (auto simp: in_remove_def)
    with Cons.prems(3) st have "until_idle es s1 = Some s'" by simp
    from Cons.IH [OF re ir this] b i show ?thesis by simp
  next
    assume "main s1 = Idle" "returned s1 = None" "bots s1 = bots s"
      "console s1 = console s @ [Removed_bot (bot_id (the_bot s a))]"
      "pc (the_bot s1 a) = Finished" "stop_event (the_bot s1 a)"
    moreover from this(1) Cons.prems(3) st have "s' = s1" by simp
    ultimately show ?thesis by simp
  qed
qed

lemma pool_last_newest:
  assumes "inv_heap s" and "inv_main s" and "b \<in> set (bots s)"
  shows "bot_id (the_bot s b) \<le> bot_id (the_bot s (last (bots s)))"
proof -
  from assms(3) have ne: "bots s \<noteq> []" by auto
  from assms(2) have v: "\<forall>a\<in>set (bots s). a < length (bot_heap s)"
    and so: "sorted_wrt (<) (bots s)"
    by (simp_all add: inv_main_def)
  from ne have bs: "bots s = butlast (bots s) @ [last (bots s)]" by simp
  with so have "\<forall>x\<in>set (butlast (bots s)). x < last (bots s)"
    by (metis sorted_wrt_append list.set_intros(1))
  moreover from bs assms(3) have "b \<in> set (butlast (bots s)) \<or> b = last (bots s)"
    by (metis Un_iff empty_iff empty_set set_ConsD set_append)
  ultimately have "b \<le> last (bots s)" by auto
  moreover from v assms(3) ne have "b < length (bot_heap s)" "last (bots s) < length (bot_heap s)"
    by simp_all
  ultimately show ?thesis
    using assms(1) by (simp add: inv_heap_def)
qed

text \<open>
  Claim C5 as it is worded fails: \<^verbatim>\<open>remove_bot\<close> has no \<^verbatim>\<open>return\<close> with a value. After
  \<^verbatim>\<open>add_bot()\<close> (which returned 1) the call \<^verbatim>\<open>remove_bot()\<close> removes bot 1, prints
  that it removed bot 1, and returns \<^verbatim>\<open>None\<close>, not 1.
\<close>

theorem remove_bot_returns_none:
  "run remove_idle_trace initial_state = Some removed_idle \<and>
   main removed_idle = Idle \<and> bots removed_idle = [] \<and>
   bot_id (the_bot removed_idle 0) = 1 \<and>
   console removed_idle = [Added_bot 1, Removed_bot 1] \<and>
   returned removed_idle = None \<and> returned removed_idle \<noteq> Some 1"
proof -
  have "run remove_idle_trace initial_state = Some removed_idle"
    "main removed_idle = Idle" "bots removed_idle = []"
    "bot_id (the_bot removed_idle 0) = 1"
    "console removed_idle = [Added_bot 1, Removed_bot 1]"
    "returned removed_idle = None"
    by code_simp+
  then show ?thesis by simp
qed

text \<open>
  Claim C5, amended. The client calls \<^verbatim>\<open>remove_bot\<close> in a reachable state. With an
  empty pool the call prints that there is no bot to remove, returns \<^verbatim>\<open>None\<close> and
  changes nothing else. With a non-empty pool it takes the last bot out of the pool,
  which is the most recently added one (no bot of the pool has a greater id), and goes
  on to stop it; whenever the call returns, it returns \<^verbatim>\<open>None\<close>, the last line it
  printed reports the id of that bot, the thread of that bot has ended with its stop
  event set, and the pool is the old pool without that bot.
\<close>

theorem remove_bot_pops_newest:
  assumes r: "run es0 initial_state = Some s" and m: "main s = Idle"
  shows
    "(bots s = [] \<longrightarrow>
        step Call_remove_bot s = Some (s\<lparr>console := console s @ [No_bots_to_remove],
                                         returned := None\<rparr>)) \<and>
     (bots s \<noteq> [] \<longrightarrow>
        (\<forall>b\<in>set (bots s). bot_id (the_bot s b) \<le> bot_id (the_bot s (last (bots s)))) \<and>
        (\<exists>s1. step Call_remove_bot s = Some s1 \<and> bots s1 = butlast (bots s) \<and>
              main s1 = Stop53 (last (bots s)) In_remove_bot \<and>
              (\<forall>es s2. until_idle es s1 = Some s2 \<longrightarrow>
                 returned s2 = None \<and> bots s2 = butlast (bots s) \<and>
                 last (console s2) = Removed_bot (bot_id (the_bot s (last (bots s)))) \<and>
                 pc (the_bot s2 (last (bots s))) = Finished \<and>
                 stop_event (the_bot s2 (last (bots s))))))"
proof -
  from r have re: "reachable s" by (rule reachable_run)
  then have h: "inv_heap s" and im: "inv_main s"
    by (simp_all add: reachable_queue reachable_threads)
  from im m have nl: "\<not> order_lock s" by (simp add: inv_main_def)
  with m have st: "step Call_remove_bot s = Some (remove_bot s)" by (simp add: step_def)
  have 1: "step Call_remove_bot s =
      Some (s\<lparr>console := console s @ [No_bots_to_remove], returned := None\<rparr>)"
    if "bots s = []"
    using st that by (simp add: remove_bot_def print_def)
  have 2: "\<forall>b\<in>set (bots s). bot_id (the_bot s b) \<le> bot_id (the_bot s (last (bots s)))"
    using pool_last_newest [OF h im] by blast
  have 3: "\<exists>s1. step Call_remove_bot s = Some s1 \<and> bots s1 = butlast (bots s) \<and>
              main s1 = Stop53 (last (bots s)) In_remove_bot \<and>
              (\<forall>es s2. until_idle es s1 = Some s2 \<longrightarrow>
                 returned s2 = None \<and> bots s2 = butlast (bots s) \<and>
                 last (console s2) = Removed_bot (bot_id (the_bot s (last (bots s)))) \<and>
                 pc (the_bot s2 (last (bots s))) = Finished \<and>
                 stop_event (the_bot s2 (last (bots s))))"
    if ne: "bots s \<noteq> []"
  proof -
    let ?a = "last (bots s)" and ?s1 = "remove_bot s"
    from ne have b1: "bots ?s1 = butlast (bots s)"
      and m1: "main ?s1 = Stop53 ?a In_remove_bot"
      and i1: "bot_id (the_bot ?s1 ?a) = bot_id (the_bot s ?a)"
      by (simp_all add: remove_bot_def)
    from re st have re1: "reachable ?s1" by (rule reachable_step)
    from m1 have ir: "in_remove ?a ?s1" by (simp add: in_remove_def)
    have "returned s2 = None \<and> bots s2 = butlast (bots s) \<and>
        last (console s2) = Removed_bot (bot_id (the_bot s ?a)) \<and>
        pc (the_bot s2 ?a) = Finished \<and> stop_event (the_bot s2 ?a)"
      if "until_idle es ?s1 = Some s2" for es s2
      using until_idle_remove [OF re1 ir that] b1 i1 by simp
    with st b1 m1 show ?thesis by blast
  qed
  from 1 2 3 show ?thesis by blast
qed

theorem remove_bot_pops_newest_witness:
  "main initial_state = Idle \<and> bots initial_state = [] \<and>
   step Call_remove_bot initial_state =
     Some (initial_state\<lparr>console := console initial_state @ [No_bots_to_remove],
                          returned := None\<rparr>) \<and>
   main two_bots = Idle \<and> bots two_bots = [0, 1] \<and>
   bot_id (the_bot two_bots 0) = 1 \<and> bot_id (the_bot two_bots 1) = 2 \<and>
   step Call_remove_bot two_bots = Some two_bots_removing \<and>
   bots two_bots_removing = [0] \<and>
   main two_bots_removing = Stop53 1 In_remove_bot \<and>
   until_idle [Main_step, Bot_step 0, Main_step, Tick 7, Bot_step 1, Main_step]
     two_bots_removing = Some two_bots_removed \<and>
   returned two_bots_removed = None \<and> bots two_bots_removed = [0] \<and>
   last (console two_bots_removed) = Removed_bot 2 \<and>
   pc (the_bot two_bots_removed 1) = Finished"
proof -
  have i: "run [] initial_state = Some initial_state" "main initial_state = Idle"
    "bots initial_state = []"
    by (simp_all add: initial_state_def)
  have t: "run [Call_add_bot, Call_add_bot] initial_state = Some two_bots"
    "main two_bots = Idle" "bots two_bots = [0, 1]" "last (bots two_bots) = 1"
    "butlast (bots two_bots) = [0]"
    "bot_id (the_bot two_bots 0) = 1" "bot_id (the_bot two_bots 1) = 2"
    by code_simp+
  have s: "step Call_remove_bot two_bots = Some two_bots_removing" by code_simp
  have u: "until_idle [Main_step, Bot_step 0, Main_step, Tick 7, Bot_step 1, Main_step]
     two_bots_removing = Some two_bots_removed"
    by code_simp
  from remove_bot_pops_newest [OF i(1,2)] i(3)
  have 1: "step Call_remove_bot initial_state =
     Some (initial_state\<lparr>console := console initial_state @ [No_bots_to_remove],
                          returned := None\<rparr>)"
    by blast
  from t(3) have ne: "bots two_bots \<noteq> []" by simp
  from remove_bot_pops_newest [OF t(1,2)] ne obtain s1 where
    s1: "step Call_remove_bot two_bots = Some s1" "bots s1 = butlast (bots two_bots)"
      "main s1 = Stop53 (last (bots two_bots)) In_remove_bot"
    and ret: "\<forall>es s2. until_idle es s1 = Some s2 \<longrightarrow>
        returned s2 = None \<and> bots s2 = butlast (bots two_bots) \<and>
        last (console s2) = Removed_bot (bot_id (the_bot two_bots (last (bots two_bots)))) \<and>
        pc (the_bot s2 (last (bots two_bots))) = Finished \<and>
        stop_event (the_bot s2 (last (bots two_bots)))"
    by blast
  from s1(1) s have e: "s1 = two_bots_removing" by simp
  from ret u have 2: "returned two_bots_removed = None \<and>
      bots two_bots_removed = butlast (bots two_bots) \<and>
      last (console two_bots_removed) =
        Removed_bot (bot_id (the_bot two_bots (last (bots two_bots)))) \<and>
      pc (the_bot two_bots_removed (last (bots two_bots))) = Finished"
    unfolding e by blast
  from 1 2 s1 i t s u show ?thesis
    unfolding e by simp
qed

subsection \<open>The life cycle of an order\<close>




















end
